theory Spec2Isabelle
  imports Main
begin

section \<open>Python string primitives used by the services\<close>

text \<open>
  Texts are Python \<open>str\<close> values, modelled as \<open>string\<close>; a character is one list
  element, so \<open>length\<close> is Python's \<open>len\<close>. The model covers code points below 256.
  \<open>isspace\<close> lists the characters below 256 for which \<open>str.isspace\<close> holds; they are
  the characters that \<open>str.strip()\<close> removes.
\<close>

definition isspace :: "char \<Rightarrow> bool" where
  "isspace c = (c \<in> set [CHR 0x09, CHR 0x0A, CHR 0x0B, CHR 0x0C, CHR 0x0D, CHR 0x1C, CHR 0x1D,
      CHR 0x1E, CHR 0x1F, CHR '' '', CHR 0x85, CHR 0xA0])"

text \<open>\<open>text.strip()\<close>: leading, then trailing whitespace is removed.\<close>

definition strip :: "string \<Rightarrow> string" where
  "strip s = rev (dropWhile isspace (rev (dropWhile isspace s)))"

text \<open>\<open>text[a:b]\<close> for indices \<open>0 \<le> a\<close>, \<open>0 \<le> b\<close>; empty when \<open>b \<le> a\<close>, cut at the end of the text.\<close>

definition slice :: "string \<Rightarrow> nat \<Rightarrow> nat \<Rightarrow> string" where
  "slice s a b = take (b - a) (drop a s)"

definition matches_at :: "string \<Rightarrow> string \<Rightarrow> nat \<Rightarrow> bool" where
  "matches_at s pat i = (take (length pat) (drop i s) = pat)"

text \<open>
  \<open>text.rfind(pat, lo, hi)\<close>: the highest index \<open>i\<close> with \<open>lo \<le> i\<close> and
  \<open>i + len(pat) \<le> min(hi, len(text))\<close> at which \<open>pat\<close> occurs, and \<open>-1\<close> when there is none.
  \<open>rfind_down s pat lo k\<close> tries the candidates \<open>lo + k - 1\<close>, ..., \<open>lo\<close> in that order.
\<close>

fun rfind_down :: "string \<Rightarrow> string \<Rightarrow> nat \<Rightarrow> nat \<Rightarrow> int" where
  "rfind_down s pat lo 0 = - 1"
| "rfind_down s pat lo (Suc k) =
     (if matches_at s pat (lo + k) then int (lo + k) else rfind_down s pat lo k)"

definition rfind :: "string \<Rightarrow> string \<Rightarrow> nat \<Rightarrow> nat \<Rightarrow> int" where
  "rfind s pat lo hi = rfind_down s pat lo (Suc (min hi (length s)) - length pat - lo)"

section \<open>Metadata dictionaries\<close>

datatype mvalue = MStr string | MInt int

type_synonym metadata = "string \<rightharpoonup> mvalue"

section \<open>DatasheetIngestionService.create_text_chunks\<close>

text \<open>The chunking parameters that \<open>__init__\<close> stores in the service.\<close>

definition min_chunk_size :: nat where "min_chunk_size = 1000"
definition max_chunk_size :: nat where "max_chunk_size = 2000"
definition overlap_size :: nat where "overlap_size = 200"

definition sentence_patterns :: "string list" where
  "sentence_patterns =
     [''. '', ''! '', ''? '', [CHR ''.'', CHR 0x0A], [CHR ''!'', CHR 0x0A], [CHR ''?'', CHR 0x0A]]"

text \<open>
  The \<open>for pattern in [...]\<close> loop: \<open>sentence_end\<close> starts at \<open>-1\<close>; a pattern whose last
  occurrence \<open>pos\<close> in the window is greater than the current \<open>sentence_end\<close> sets
  \<open>sentence_end = pos + len(pattern)\<close>.
\<close>

fun scan_patterns :: "string \<Rightarrow> nat \<Rightarrow> nat \<Rightarrow> string list \<Rightarrow> int \<Rightarrow> int" where
  "scan_patterns s search_start end_pos [] sentence_end = sentence_end"
| "scan_patterns s search_start end_pos (pattern # ps) sentence_end =
     (let pos = rfind s pattern search_start end_pos
      in scan_patterns s search_start end_pos ps
           (if pos > sentence_end then pos + int (length pattern) else sentence_end))"

text \<open>
  The end position of the chunk that starts at \<open>start_pos\<close> (lines 118 to 132). Positions
  are natural numbers; \<open>end_pos - 200\<close> is only used under \<open>max\<close> with the non-negative
  \<open>start_pos + min_chunk_size\<close>, where truncated subtraction gives the same value as
  Python's integers.
\<close>

definition chunk_end :: "string \<Rightarrow> nat \<Rightarrow> nat" where
  "chunk_end s start_pos =
     (let end_pos = min (start_pos + max_chunk_size) (length s)
      in if end_pos < length s then
           (let search_start = max (start_pos + min_chunk_size) (end_pos - 200);
                sentence_end = scan_patterns s search_start end_pos sentence_patterns (- 1)
            in if sentence_end > 0 then nat sentence_end else end_pos)
         else end_pos)"

text \<open>The stripped chunk (line 135) and the test that decides whether it is emitted (line 137).\<close>

definition chunk_text_at :: "string \<Rightarrow> nat \<Rightarrow> string" where
  "chunk_text_at s start_pos = strip (slice s start_pos (chunk_end s start_pos))"

definition keep_chunk :: "string \<Rightarrow> nat \<Rightarrow> bool" where
  "keep_chunk s start_pos =
     (length (chunk_text_at s start_pos) \<ge> min_chunk_size
      \<or> start_pos + length (chunk_text_at s start_pos) \<ge> length s)"

text \<open>The dictionary built at lines 139 to 146; the chunk keys override the source's.\<close>

definition chunk_metadata :: "metadata \<Rightarrow> nat \<Rightarrow> nat \<Rightarrow> nat \<Rightarrow> nat \<Rightarrow> nat \<Rightarrow> metadata" where
  "chunk_metadata source_metadata chunk_index start_pos end_pos chunk_length total_len =
     source_metadata
       (''chunk_index'' \<mapsto> MInt (int chunk_index),
        ''chunk_start'' \<mapsto> MInt (int start_pos),
        ''chunk_end'' \<mapsto> MInt (int end_pos),
        ''chunk_length'' \<mapsto> MInt (int chunk_length),
        ''total_text_length'' \<mapsto> MInt (int total_len))"

text \<open>
  The cursor for the next iteration (lines 152 to 158). \<open>end_pos - overlap_size\<close> again
  stands under \<open>max\<close> with a non-negative number, so truncated subtraction changes nothing.
\<close>

definition next_start :: "string \<Rightarrow> nat \<Rightarrow> nat" where
  "next_start s start_pos =
     (let ns = max (start_pos + min_chunk_size) (chunk_end s start_pos - overlap_size)
      in if ns \<le> start_pos then start_pos + min_chunk_size else ns)"

text \<open>
  The \<open>while start_pos < len(text)\<close> loop. The chunks are returned in the order in which the
  source appends them; the final \<open>break\<close> repeats the loop condition.
\<close>

function chunk_loop :: "string \<Rightarrow> metadata \<Rightarrow> nat \<Rightarrow> nat \<Rightarrow> (string \<times> metadata) list" where
  "chunk_loop s source_metadata start_pos chunk_index =
     (if start_pos < length s then
        (if keep_chunk s start_pos then
           (chunk_text_at s start_pos,
            chunk_metadata source_metadata chunk_index start_pos (chunk_end s start_pos)
              (length (chunk_text_at s start_pos)) (length s))
           # chunk_loop s source_metadata (next_start s start_pos) (chunk_index + 1)
         else chunk_loop s source_metadata (next_start s start_pos) chunk_index)
      else [])"
  by pat_completeness auto
termination
  by (relation "measure (\<lambda>(s, md, start_pos, idx). length s - start_pos)")
     (auto simp: next_start_def min_chunk_size_def Let_def)

declare chunk_loop.simps [simp del]

definition create_text_chunks :: "string \<Rightarrow> metadata \<Rightarrow> (string \<times> metadata) list" where
  "create_text_chunks s source_metadata =
     (if strip s = [] then [] else chunk_loop s source_metadata 0 0)"

text \<open>
  The cursor values at which the loop body runs: the same recursion as \<open>chunk_loop\<close>, with
  the emitted chunks left out. It counts the iterations.
\<close>

function loop_starts :: "string \<Rightarrow> nat \<Rightarrow> nat list" where
  "loop_starts s start_pos =
     (if start_pos < length s then start_pos # loop_starts s (next_start s start_pos) else [])"
  by pat_completeness auto
termination
  by (relation "measure (\<lambda>(s, start_pos). length s - start_pos)")
     (auto simp: next_start_def min_chunk_size_def Let_def)

declare loop_starts.simps [simp del]

text \<open>
  The cursor values of the iterations up to and including the first one whose slice reaches
  the end of the text; the iterations after it only repeat a tail of that slice.
\<close>

function starts_until_end :: "string \<Rightarrow> nat \<Rightarrow> nat list" where
  "starts_until_end s start_pos =
     (if start_pos < length s then
        start_pos #
          (if chunk_end s start_pos < length s then starts_until_end s (next_start s start_pos)
           else [])
      else [])"
  by pat_completeness auto
termination
  by (relation "measure (\<lambda>(s, start_pos). length s - start_pos)")
     (auto simp: next_start_def min_chunk_size_def Let_def)

declare starts_until_end.simps [simp del]

text \<open>Reading the span out of an emitted chunk's metadata.\<close>

definition meta_int :: "metadata \<Rightarrow> string \<Rightarrow> int" where
  "meta_int m k = (case m k of Some (MInt i) \<Rightarrow> i | _ \<Rightarrow> - 1)"

definition in_span :: "nat \<Rightarrow> string \<times> metadata \<Rightarrow> bool" where
  "in_span i c = (meta_int (snd c) ''chunk_start'' \<le> int i \<and> int i < meta_int (snd c) ''chunk_end'')"

definition covered :: "(string \<times> metadata) list \<Rightarrow> nat \<Rightarrow> bool" where
  "covered chunks i = list_ex (in_span i) chunks"

section \<open>Errors\<close>

text \<open>
  The three \<open>ValueError\<close>s that the services raise themselves are told apart by their
  message: \<open>EmptyInput\<close> is "Text cannot be empty", \<open>AllInputsEmpty\<close> is "All texts are
  empty", \<open>LengthMismatch\<close> is "Number of chunks must match number of metadata entries".
  \<open>IndexError\<close> is Python's, and \<open>External x\<close> is an exception \<open>x\<close> raised inside a library
  (sentence-transformers, ChromaDB, pdfminer), which the services let through.
\<close>

datatype 'x error = EmptyInput | AllInputsEmpty | LengthMismatch | IndexError | External 'x

section \<open>EmbeddingService\<close>

text \<open>
  The sentence-transformers library is a parameter: \<open>load_model\<close> is the constructor
  \<open>SentenceTransformer(model_name)\<close>, \<open>encode\<close> is \<open>model.encode(texts, convert_to_numpy=True)\<close>
  with its rows converted by \<open>tolist()\<close>. The service is its two fields; the lock plays no
  part in a single thread.
\<close>

record ('x, 'm, 'v) encoder_lib =
  load_model :: "string \<Rightarrow> 'x + 'm"
  encode :: "'m \<Rightarrow> string list \<Rightarrow> 'x + 'v list"

record 'm embedding_service =
  model_name :: string
  model :: "'m option"

definition get_model ::
  "('x, 'm, 'v) encoder_lib \<Rightarrow> 'm embedding_service \<Rightarrow> ('x error + 'm) \<times> 'm embedding_service" where
  "get_model lib svc =
     (case model svc of
        None \<Rightarrow>
          (case load_model lib (model_name svc) of
             Inl x \<Rightarrow> (Inl (External x), svc)
           | Inr m \<Rightarrow> (Inr m, svc\<lparr>model := Some m\<rparr>))
      | Some m \<Rightarrow> (Inr m, svc))"

definition generate_embedding ::
  "('x, 'm, 'v) encoder_lib \<Rightarrow> 'm embedding_service \<Rightarrow> string
     \<Rightarrow> ('x error + 'v) \<times> 'm embedding_service" where
  "generate_embedding lib svc txt =
     (if strip txt = [] then (Inl EmptyInput, svc)
      else
        (case get_model lib svc of
           (Inl e, svc') \<Rightarrow> (Inl e, svc')
         | (Inr m, svc') \<Rightarrow>
             (case encode lib m [txt] of
                Inl x \<Rightarrow> (Inl (External x), svc')
              | Inr [] \<Rightarrow> (Inl IndexError, svc')
              | Inr (embedding # _) \<Rightarrow> (Inr embedding, svc'))))"

definition generate_embeddings ::
  "('x, 'm, 'v) encoder_lib \<Rightarrow> 'm embedding_service \<Rightarrow> string list
     \<Rightarrow> ('x error + 'v list) \<times> 'm embedding_service" where
  "generate_embeddings lib svc texts =
     (if texts = [] then (Inr [], svc)
      else
        (let valid_texts = filter (\<lambda>t. strip t \<noteq> []) texts
         in if valid_texts = [] then (Inl AllInputsEmpty, svc)
            else
              (case get_model lib svc of
                 (Inl e, svc') \<Rightarrow> (Inl e, svc')
               | (Inr m, svc') \<Rightarrow>
                   (case encode lib m valid_texts of
                      Inl x \<Rightarrow> (Inl (External x), svc')
                    | Inr embeddings \<Rightarrow> (Inr embeddings, svc')))))"

section \<open>VectorDBService.add_document_chunks\<close>

text \<open>
  The ChromaDB client is a parameter. \<open>'c\<close> is the content of a collection;
  \<open>collection_add c documents metadatas ids\<close> returns the exception it raised, if any, and
  the content afterwards. \<open>uuid4 k\<close> is the string of the \<open>k\<close>-th identifier that
  \<open>uuid.uuid4()\<close> draws in this process, and the state counts the draws made so far.
\<close>

record ('x, 'c) vector_db_env =
  get_collection :: "string \<Rightarrow> 'x + 'c"
  create_collection :: "string \<Rightarrow> 'x + 'c"
  collection_add :: "'c \<Rightarrow> string list \<Rightarrow> metadata list \<Rightarrow> string list \<Rightarrow> 'x option \<times> 'c"
  uuid4 :: "nat \<Rightarrow> string"

record 'c vector_db_service =
  collection :: "'c option"
  uuid_draws :: nat

definition collection_name :: string where
  "collection_name = ''component_datasheets''"

definition get_collection_cached ::
  "('x, 'c) vector_db_env \<Rightarrow> 'c vector_db_service \<Rightarrow> ('x error + 'c) \<times> 'c vector_db_service" where
  "get_collection_cached env st =
     (case collection st of
        Some c \<Rightarrow> (Inr c, st)
      | None \<Rightarrow>
          (case get_collection env collection_name of
             Inr c \<Rightarrow> (Inr c, st\<lparr>collection := Some c\<rparr>)
           | Inl _ \<Rightarrow>
               (case create_collection env collection_name of
                  Inr c \<Rightarrow> (Inr c, st\<lparr>collection := Some c\<rparr>)
                | Inl x \<Rightarrow> (Inl (External x), st))))"

definition add_document_chunks ::
  "('x, 'c) vector_db_env \<Rightarrow> 'c vector_db_service \<Rightarrow> string list \<Rightarrow> metadata list
     \<Rightarrow> ('x error + string list) \<times> 'c vector_db_service" where
  "add_document_chunks env st chunks metadata_list =
     (if length chunks \<noteq> length metadata_list then (Inl LengthMismatch, st)
      else
        (case get_collection_cached env st of
           (Inl e, st1) \<Rightarrow> (Inl e, st1)
         | (Inr c, st1) \<Rightarrow>
             (let doc_ids = map (uuid4 env) [uuid_draws st1 ..< uuid_draws st1 + length chunks];
                  st2 = st1\<lparr>uuid_draws := uuid_draws st1 + length chunks\<rparr>
              in case collection_add env c chunks metadata_list doc_ids of
                   (Some x, c') \<Rightarrow> (Inl (External x), st2\<lparr>collection := Some c'\<rparr>)
                 | (None, c') \<Rightarrow> (Inr doc_ids, st2\<lparr>collection := Some c'\<rparr>))))"

section \<open>DatasheetIngestionService: ingestion of one datasheet and of a batch\<close>

text \<open>
  What the service reads from outside is a parameter: pdfminer's \<open>extract_text\<close>, the
  regular-expression substitutions of \<open>clean_text\<close>, the SHA-256 of the file (or
  \<open>"unknown"\<close>), \<open>os.path.basename\<close> and \<open>os.path.exists\<close>.
\<close>

record 'x ingestion_env =
  extract_text :: "string \<Rightarrow> 'x + string"
  clean_text :: "string \<Rightarrow> string"
  calculate_file_hash :: "string \<Rightarrow> string"
  basename :: "string \<Rightarrow> string"
  path_exists :: "string \<Rightarrow> bool"

definition extract_text_from_pdf :: "'x ingestion_env \<Rightarrow> string \<Rightarrow> 'x error + string" where
  "extract_text_from_pdf ienv path =
     (case extract_text ienv path of
        Inl x \<Rightarrow> Inl (External x)
      | Inr t \<Rightarrow> if strip t = [] then Inr [] else Inr t)"

text \<open>\<open>d.get(k, default)\<close>.\<close>

definition dict_get :: "metadata \<Rightarrow> string \<Rightarrow> mvalue \<Rightarrow> mvalue" where
  "dict_get d k dflt = (case d k of Some v \<Rightarrow> v | None \<Rightarrow> dflt)"

definition ingest_datasheet ::
  "'x ingestion_env \<Rightarrow> ('x, 'c) vector_db_env \<Rightarrow> 'c vector_db_service \<Rightarrow> string \<Rightarrow> metadata
     \<Rightarrow> ('x error + string list) \<times> 'c vector_db_service" where
  "ingest_datasheet ienv env st path info =
     (case extract_text_from_pdf ienv path of
        Inl e \<Rightarrow> (Inl e, st)
      | Inr raw_text \<Rightarrow>
          if raw_text = [] then (Inr [], st)
          else
            (let cleaned_text = clean_text ienv raw_text;
                 source_metadata = Map.empty
                   (''source_file'' \<mapsto> MStr (basename ienv path),
                    ''source_path'' \<mapsto> MStr path,
                    ''mpn'' \<mapsto> dict_get info ''mpn'' (MStr ''unknown''),
                    ''manufacturer'' \<mapsto> dict_get info ''manufacturer'' (MStr ''unknown''),
                    ''category'' \<mapsto> dict_get info ''category'' (MStr ''unknown''),
                    ''description'' \<mapsto> dict_get info ''description'' (MStr []),
                    ''datasheet_url'' \<mapsto> dict_get info ''datasheet_url'' (MStr []),
                    ''ingestion_timestamp'' \<mapsto> dict_get info ''timestamp'' (MStr []),
                    ''file_hash'' \<mapsto> MStr (calculate_file_hash ienv path));
                 chunks_with_metadata = create_text_chunks cleaned_text source_metadata
             in if chunks_with_metadata = [] then (Inr [], st)
                else add_document_chunks env st
                       (map fst chunks_with_metadata) (map snd chunks_with_metadata)))"

text \<open>
  A configuration is a dictionary whose keys \<open>"pdf_path"\<close> and \<open>"component_info"\<close> may be
  absent (\<open>config.get\<close>). \<open>batch_step\<close> is the body of the \<open>for\<close> loop: the id list that it
  stores under \<open>pdf_path\<close>, and the state afterwards. \<open>except Exception\<close> catches every error
  of \<open>ingest_datasheet\<close>.
\<close>

record config =
  pdf_path :: "string option"
  component_info :: "metadata option"

definition batch_step ::
  "'x ingestion_env \<Rightarrow> ('x, 'c) vector_db_env \<Rightarrow> config \<Rightarrow> 'c vector_db_service
     \<Rightarrow> string list \<times> 'c vector_db_service" where
  "batch_step ienv env cfg st =
     (let info = (case component_info cfg of Some i \<Rightarrow> i | None \<Rightarrow> Map.empty)
      in case pdf_path cfg of
           None \<Rightarrow> ([], st)
         | Some p \<Rightarrow>
             if p = [] \<or> \<not> path_exists ienv p then ([], st)
             else
               (case ingest_datasheet ienv env st p info of
                  (Inr doc_ids, st') \<Rightarrow> (doc_ids, st')
                | (Inl e, st') \<Rightarrow> ([], st')))"

fun batch_loop ::
  "'x ingestion_env \<Rightarrow> ('x, 'c) vector_db_env \<Rightarrow> config list
     \<Rightarrow> (string option \<rightharpoonup> string list) \<Rightarrow> 'c vector_db_service
     \<Rightarrow> (string option \<rightharpoonup> string list) \<times> 'c vector_db_service" where
  "batch_loop ienv env [] results st = (results, st)"
| "batch_loop ienv env (cfg # rest) results st =
     (case batch_step ienv env cfg st of
        (doc_ids, st') \<Rightarrow> batch_loop ienv env rest (results(pdf_path cfg \<mapsto> doc_ids)) st')"

definition batch_ingest_datasheets ::
  "'x ingestion_env \<Rightarrow> ('x, 'c) vector_db_env \<Rightarrow> 'c vector_db_service \<Rightarrow> config list
     \<Rightarrow> (string option \<rightharpoonup> string list) \<times> 'c vector_db_service" where
  "batch_ingest_datasheets ienv env st datasheet_configs =
     batch_loop ienv env datasheet_configs Map.empty st"

section \<open>Concrete inputs\<close>

text \<open>Texts on which the chunker is run below.\<close>

definition text_leading_blanks :: string where
  "text_leading_blanks = replicate 1001 CHR '' '' @ replicate 1000 CHR ''a''"

definition text_trailing_blank :: string where
  "text_trailing_blank = replicate 1000 CHR ''a'' @ '' ''"

definition text_adjacent_delimiters :: string where
  "text_adjacent_delimiters = replicate 1996 CHR ''a'' @ ''. ! '' @ replicate 100 CHR ''a''"

text \<open>The text of the repository's chunking test: 150 times the same sentence, 3750 characters.\<close>

definition test_sentence :: string where
  "test_sentence = ''This is a test sentence. ''"

definition text_test_sentences :: string where
  "text_test_sentences = concat (replicate 150 test_sentence)"

text \<open>
  An encoder that loads at once and maps a text to its length, and a service that has not
  loaded its model yet.
\<close>

definition example_encoder :: "(unit, unit, nat) encoder_lib" where
  "example_encoder =
     \<lparr>load_model = (\<lambda>name. Inr ()), encode = (\<lambda>m texts. Inr (map length texts))\<rparr>"

definition fresh_embedding_service :: "unit embedding_service" where
  "fresh_embedding_service = \<lparr>model_name = ''all-MiniLM-L6-v2'', model = None\<rparr>"

text \<open>
  A store whose collection is the list of the records added so far; the collection does not
  exist at first and is created empty.
\<close>

definition example_db :: "(unit, (string \<times> string \<times> metadata) list) vector_db_env" where
  "example_db =
     \<lparr>get_collection = (\<lambda>name. Inl ()),
      create_collection = (\<lambda>name. Inr []),
      collection_add = (\<lambda>c documents metadatas ids. (None, c @ zip ids (zip documents metadatas))),
      uuid4 = (\<lambda>k. ''uuid-'' @ replicate k CHR ''i'')\<rparr>"

definition new_db_service :: "(string \<times> string \<times> metadata) list vector_db_service" where
  "new_db_service = \<lparr>collection = None, uuid_draws = 0\<rparr>"

text \<open>
  A file system in which every path but \<open>missing.pdf\<close> exists, \<open>bad.pdf\<close> cannot be read and
  every other file holds the same short text.
\<close>

definition example_files :: "unit ingestion_env" where
  "example_files =
     \<lparr>extract_text = (\<lambda>p. if p = ''bad.pdf'' then Inl () else Inr ''Datasheet text.''),
      clean_text = (\<lambda>t. t),
      calculate_file_hash = (\<lambda>p. ''unknown''),
      basename = (\<lambda>p. p),
      path_exists = (\<lambda>p. p \<noteq> ''missing.pdf'')\<rparr>"

definition config_of :: "string \<Rightarrow> config" where
  "config_of p = \<lparr>pdf_path = Some p, component_info = None\<rparr>"

section \<open>Notions used to state the properties of the batch\<close>

text \<open>
  The entry of a configuration fails when its path is absent, empty or does not exist, or
  when \<open>ingest_datasheet\<close> raises for it in the state \<open>st\<close>.
\<close>

definition entry_fails ::
  "'x ingestion_env \<Rightarrow> ('x, 'c) vector_db_env \<Rightarrow> 'c vector_db_service \<Rightarrow> config \<Rightarrow> bool" where
  "entry_fails ienv env st cfg =
     (case pdf_path cfg of
        None \<Rightarrow> True
      | Some p \<Rightarrow>
          p = [] \<or> \<not> path_exists ienv p
          \<or> isl (fst (ingest_datasheet ienv env st p
                 (case component_info cfg of Some i \<Rightarrow> i | None \<Rightarrow> Map.empty))))"

section \<open>Properties of the string primitives\<close>

subsection \<open>strip and slice\<close>

lemma length_strip_le: "length (strip s) \<le> length s"
proof -
  have "length (dropWhile isspace (rev (dropWhile isspace s))) \<le> length (rev (dropWhile isspace s))"
    by (rule length_dropWhile_le)
  also have "\<dots> \<le> length s" by (simp add: length_dropWhile_le)
  finally show ?thesis by (simp add: strip_def)
qed

lemma length_slice: "length (slice s a b) = min (b - a) (length s - a)"
  by (simp add: slice_def)

lemma strip_id: "s \<noteq> [] \<Longrightarrow> \<not> isspace (hd s) \<Longrightarrow> \<not> isspace (last s) \<Longrightarrow> strip s = s"
  by (cases s) (auto simp: strip_def hd_rev dropWhile_eq_Nil_conv split: if_splits
       intro!: dropWhile_eq_self_iff[THEN iffD2])

lemma strip_lead: "\<forall>c\<in>set ws. isspace c \<Longrightarrow> strip (ws @ s) = strip s"
  by (simp add: strip_def dropWhile_append)

lemma dropWhile_all: "\<forall>c\<in>set ws. P c \<Longrightarrow> dropWhile P ws = []"
  by simp

lemma strip_trail:
  assumes ws: "\<forall>c\<in>set ws. isspace c"
  shows "strip (s @ ws) = strip s"
proof (cases "\<forall>c\<in>set s. isspace c")
  case True
  then have "dropWhile isspace s = []" by (rule dropWhile_all)
  moreover have "dropWhile isspace ws = []" using ws by (rule dropWhile_all)
  ultimately show ?thesis using True
    by (simp add: strip_def dropWhile_append del: dropWhile_eq_Nil_conv)
next
  case False
  then have "dropWhile isspace (s @ ws) = dropWhile isspace s @ ws"
    by (auto simp: dropWhile_append)
  moreover have "dropWhile isspace (rev ws @ r) = dropWhile isspace r" for r
    using ws by (simp add: dropWhile_append)
  ultimately show ?thesis by (simp add: strip_def)
qed

lemma strip_eq_Nil: "strip s = [] \<longleftrightarrow> (\<forall>c\<in>set s. isspace c)"
proof
  assume "strip s = []"
  then have a: "\<forall>x\<in>set (dropWhile isspace s). isspace x"
    by (simp add: strip_def dropWhile_eq_Nil_conv)
  have "dropWhile isspace s = []"
  proof (cases "dropWhile isspace s")
    case (Cons x xs)
    then have "\<not> isspace x" using hd_dropWhile[of isspace s] by simp
    with a Cons show ?thesis by simp
  qed simp
  then show "\<forall>c\<in>set s. isspace c" by (simp add: dropWhile_eq_Nil_conv)
next
  assume "\<forall>c\<in>set s. isspace c"
  then have "dropWhile isspace s = []" by (rule dropWhile_all)
  then show "strip s = []" by (simp add: strip_def del: dropWhile_eq_Nil_conv)
qed

subsection \<open>rfind\<close>

lemma rfind_down_cases:
  "rfind_down s p lo k = - 1 \<or> (\<exists>j<k. rfind_down s p lo k = int (lo + j) \<and> matches_at s p (lo + j))"
  by (induction k) (auto intro: less_SucI)

lemma rfind_down_max:
  "j < k \<Longrightarrow> matches_at s p (lo + j) \<Longrightarrow> int (lo + j) \<le> rfind_down s p lo k"
proof (induction k)
  case 0 then show ?case by simp
next
  case (Suc k)
  then show ?case by (cases "j = k") (auto simp: less_Suc_eq)
qed

lemma rfind_down_none: "(\<forall>j<k. \<not> matches_at s p (lo + j)) \<Longrightarrow> rfind_down s p lo k = - 1"
  by (induction k) auto

lemma matches_at_bound: "matches_at s p i \<Longrightarrow> p \<noteq> [] \<Longrightarrow> i + length p \<le> length s"
proof -
  assume m: "matches_at s p i" and ne: "p \<noteq> []"
  have "length (take (length p) (drop i s)) = length p" using m by (simp add: matches_at_def)
  then have "length p \<le> length s - i" by simp
  with ne show ?thesis by (cases p) auto
qed

lemma rfind_cases:
  "rfind s p lo hi = - 1 \<or>
   (\<exists>i. rfind s p lo hi = int i \<and> lo \<le> i \<and> i + length p \<le> hi \<and> i + length p \<le> length s
        \<and> matches_at s p i)"
proof -
  let ?k = "Suc (min hi (length s)) - length p - lo"
  from rfind_down_cases[of s p lo ?k] show ?thesis
  proof
    assume "rfind_down s p lo ?k = - 1" then show ?thesis by (simp add: rfind_def)
  next
    assume "\<exists>j<?k. rfind_down s p lo ?k = int (lo + j) \<and> matches_at s p (lo + j)"
    then obtain j where j: "j < ?k" "rfind_down s p lo ?k = int (lo + j)" "matches_at s p (lo + j)"
      by blast
    from j(1) have "lo + j + length p \<le> hi" "lo + j + length p \<le> length s" by auto
    with j show ?thesis unfolding rfind_def by (intro disjI2 exI[of _ "lo + j"]) auto
  qed
qed

lemma rfind_max:
  assumes "lo \<le> i" "i + length p \<le> hi" "matches_at s p i" "p \<noteq> []"
  shows "int i \<le> rfind s p lo hi"
proof -
  from matches_at_bound[OF assms(3,4)] have b: "i + length p \<le> length s" .
  let ?k = "Suc (min hi (length s)) - length p - lo"
  have "i - lo < ?k" using assms(1,2) b by auto
  from rfind_down_max[of "i - lo" ?k s p lo, OF this] assms(1,3) show ?thesis
    by (simp add: rfind_def)
qed

lemma rfind_none:
  "(\<forall>i. lo \<le> i \<and> i < hi \<longrightarrow> \<not> matches_at s p i) \<Longrightarrow> p \<noteq> [] \<Longrightarrow> rfind s p lo hi = - 1"
  using rfind_cases[of s p lo hi] by (cases p) auto

section \<open>Properties of the chunking loop\<close>

subsection \<open>The pattern scan\<close>

lemma scan_patterns_ge: "se \<le> scan_patterns s lo hi ps se"
proof (induction ps arbitrary: se)
  case Nil show ?case by simp
next
  case (Cons p ps)
  let ?se' = "if rfind s p lo hi > se then rfind s p lo hi + int (length p) else se"
  have "se \<le> ?se'" by simp
  also have "?se' \<le> scan_patterns s lo hi ps ?se'" by (rule Cons.IH)
  finally show ?case by (simp add: Let_def)
qed

lemma scan_patterns_cases:
  "- 1 \<le> se \<Longrightarrow>
   scan_patterns s lo hi ps se = se \<or>
   (\<exists>p\<in>set ps. \<exists>i. scan_patterns s lo hi ps se = int i + int (length p) \<and> lo \<le> i
       \<and> i + length p \<le> hi \<and> i + length p \<le> length s \<and> matches_at s p i)"
proof (induction ps arbitrary: se)
  case Nil show ?case by simp
next
  case (Cons p ps)
  let ?pos = "rfind s p lo hi"
  let ?se' = "if ?pos > se then ?pos + int (length p) else se"
  have eq: "scan_patterns s lo hi (p # ps) se = scan_patterns s lo hi ps ?se'"
    by (simp add: Let_def)
  have "- 1 \<le> ?se'" using Cons.prems by auto
  from Cons.IH[OF this] show ?case
  proof
    assume r: "scan_patterns s lo hi ps ?se' = ?se'"
    show ?thesis
    proof (cases "?pos > se")
      case False
      with r eq show ?thesis by simp
    next
      case True
      with Cons.prems have "?pos \<noteq> - 1" by simp
      with rfind_cases[of s p lo hi] obtain i where
        "?pos = int i" "lo \<le> i" "i + length p \<le> hi" "i + length p \<le> length s" "matches_at s p i"
        by blast
      with r eq True show ?thesis by auto
    qed
  next
    assume "\<exists>q\<in>set ps. \<exists>i. scan_patterns s lo hi ps ?se' = int i + int (length q) \<and> lo \<le> i
       \<and> i + length q \<le> hi \<and> i + length q \<le> length s \<and> matches_at s q i"
    with eq show ?thesis by auto
  qed
qed

lemma scan_patterns_upper:
  "p \<in> set ps \<Longrightarrow> rfind s p lo hi \<le> scan_patterns s lo hi ps se"
proof (induction ps arbitrary: se)
  case Nil then show ?case by simp
next
  case (Cons q ps)
  let ?pos = "rfind s q lo hi"
  let ?se' = "if ?pos > se then ?pos + int (length q) else se"
  have eq: "scan_patterns s lo hi (q # ps) se = scan_patterns s lo hi ps ?se'"
    by (simp add: Let_def)
  show ?case
  proof (cases "p = q")
    case True
    have "?pos \<le> ?se'" by simp
    also have "\<dots> \<le> scan_patterns s lo hi ps ?se'" by (rule scan_patterns_ge)
    finally show ?thesis using eq True by simp
  next
    case False
    with Cons.prems have "p \<in> set ps" by simp
    from Cons.IH[OF this] eq show ?thesis by simp
  qed
qed

lemma scan_patterns_none:
  "(\<forall>p\<in>set ps. rfind s p lo hi = - 1) \<Longrightarrow> scan_patterns s lo hi ps (- 1) = - 1"
  by (induction ps) (auto simp: Let_def)

lemma sentence_pattern_length: "p \<in> set sentence_patterns \<Longrightarrow> length p = 2"
  by (auto simp: sentence_patterns_def)

subsection \<open>The end of a chunk and the next cursor\<close>

lemma chunk_end_final: "length s \<le> start + max_chunk_size \<Longrightarrow> chunk_end s start = length s"
  by (simp add: chunk_end_def Let_def min_def)

lemma chunk_end_nonfinal:
  assumes "start + max_chunk_size < length s"
  shows "start + 1802 \<le> chunk_end s start \<and> chunk_end s start \<le> start + 2000"
proof -
  let ?e = "start + max_chunk_size"
  let ?lo = "max (start + min_chunk_size) (?e - 200)"
  let ?R = "scan_patterns s ?lo ?e sentence_patterns (- 1)"
  have ce: "chunk_end s start = (if ?R > 0 then nat ?R else ?e)"
    using assms by (simp add: chunk_end_def Let_def min_def)
  have lo: "?lo = start + 1800" by (simp add: min_chunk_size_def max_chunk_size_def)
  from scan_patterns_cases[of "- 1" s ?lo ?e sentence_patterns] show ?thesis
  proof
    assume "?R = - 1"
    with ce show ?thesis by (simp add: max_chunk_size_def)
  next
    assume "\<exists>p\<in>set sentence_patterns. \<exists>i. ?R = int i + int (length p) \<and> ?lo \<le> i
       \<and> i + length p \<le> ?e \<and> i + length p \<le> length s \<and> matches_at s p i"
    then obtain p i where p: "p \<in> set sentence_patterns" and
      R: "?R = int i + int (length p)" and b: "?lo \<le> i" "i + length p \<le> ?e"
      by blast
    from sentence_pattern_length[OF p] R have "?R = int (i + 2)" by simp
    with ce have "chunk_end s start = i + 2" by simp
    with b lo sentence_pattern_length[OF p] show ?thesis by (simp add: max_chunk_size_def)
  qed simp
qed

lemma chunk_end_bounds:
  assumes "start < length s"
  shows "start < chunk_end s start \<and> chunk_end s start \<le> length s"
proof (cases "start + max_chunk_size < length s")
  case True
  from chunk_end_nonfinal[OF True] True show ?thesis by (simp add: max_chunk_size_def)
next
  case False
  then have "chunk_end s start = length s" by (simp add: chunk_end_final)
  with assms show ?thesis by simp
qed

lemma next_start_ge: "start + min_chunk_size \<le> next_start s start"
  by (simp add: next_start_def Let_def)

lemma next_start_le_end:
  "start + max_chunk_size < length s \<Longrightarrow> next_start s start \<le> chunk_end s start"
  using chunk_end_nonfinal[of start s]
  by (simp add: next_start_def Let_def min_chunk_size_def overlap_size_def)

subsection \<open>The loop\<close>

lemma meta_int_chunk_metadata:
  "meta_int (chunk_metadata md idx st e l n) ''chunk_index'' = int idx"
  "meta_int (chunk_metadata md idx st e l n) ''chunk_start'' = int st"
  "meta_int (chunk_metadata md idx st e l n) ''chunk_end'' = int e"
  "meta_int (chunk_metadata md idx st e l n) ''chunk_length'' = int l"
  "meta_int (chunk_metadata md idx st e l n) ''total_text_length'' = int n"
  by (simp_all add: meta_int_def chunk_metadata_def)

lemma ceil_div_step:
  fixes d m :: nat
  assumes "0 < m" "0 < d"
  shows "Suc ((d - m + (m - 1)) div m) \<le> (d + (m - 1)) div m"
proof (cases "m \<le> d")
  case True
  then have "d + (m - 1) = (d - m + (m - 1)) + m" by simp
  then have "(d + (m - 1)) div m = (d - m + (m - 1) + m) div m" by simp
  also have "\<dots> = Suc ((d - m + (m - 1)) div m)" using assms(1) by (simp only: div_add_self2)
  finally show ?thesis by simp
next
  case False
  then have "(d - m + (m - 1)) div m = 0" using assms(1) by simp
  moreover have "m div m \<le> (d + (m - 1)) div m" using assms(2) by (intro div_le_mono) simp
  ultimately show ?thesis using assms(1) by simp
qed

lemma length_loop_starts:
  "length (loop_starts s start) \<le> (length s - start + (min_chunk_size - 1)) div min_chunk_size"
proof (induction s start rule: loop_starts.induct)
  case (1 s start)
  show ?case
  proof (cases "start < length s")
    case False
    then show ?thesis by (simp add: loop_starts.simps[of s start])
  next
    case True
    from 1[OF True] have
      "length (loop_starts s (next_start s start))
         \<le> (length s - next_start s start + (min_chunk_size - 1)) div min_chunk_size" .
    also have "\<dots> \<le> (length s - (start + min_chunk_size) + (min_chunk_size - 1)) div min_chunk_size"
      using next_start_ge[of start s] by (intro div_le_mono) simp
    finally have "Suc (length (loop_starts s (next_start s start)))
         \<le> Suc ((length s - (start + min_chunk_size) + (min_chunk_size - 1)) div min_chunk_size)"
      by simp
    also have "\<dots> \<le> (length s - start + (min_chunk_size - 1)) div min_chunk_size"
      using ceil_div_step[of min_chunk_size "length s - start"] True
      by (simp add: min_chunk_size_def)
    finally show ?thesis using True by (simp add: loop_starts.simps[of s start])
  qed
qed

lemma length_chunk_loop:
  "length (chunk_loop s md start idx) \<le> length (loop_starts s start)"
proof (induction s md start idx rule: chunk_loop.induct)
  case (1 s md start idx)
  show ?case
  proof (cases "start < length s")
    case False
    then show ?thesis by (simp add: chunk_loop.simps[of s md start idx])
  next
    case True
    with 1 show ?thesis
      by (cases "keep_chunk s start")
         (simp_all add: chunk_loop.simps[of s md start idx] loop_starts.simps[of s start])
  qed
qed

lemma chunk_loop_starts:
  "map (\<lambda>c. meta_int (snd c) ''chunk_start'') (chunk_loop s md start idx)
     = map int (filter (keep_chunk s) (loop_starts s start))"
proof (induction s md start idx rule: chunk_loop.induct)
  case (1 s md start idx)
  show ?case
  proof (cases "start < length s")
    case False
    then show ?thesis by (simp add: chunk_loop.simps[of s md start idx] loop_starts.simps[of s start])
  next
    case True
    with 1 show ?thesis
      by (cases "keep_chunk s start")
         (simp_all add: chunk_loop.simps[of s md start idx] loop_starts.simps[of s start]
            meta_int_chunk_metadata)
  qed
qed

lemma chunk_loop_elem:
  "c \<in> set (chunk_loop s md start idx) \<Longrightarrow>
   \<exists>st i. start \<le> st \<and> st < length s \<and> keep_chunk s st \<and>
     c = (chunk_text_at s st,
          chunk_metadata md i st (chunk_end s st) (length (chunk_text_at s st)) (length s))"
proof (induction s md start idx rule: chunk_loop.induct)
  case (1 s md start idx)
  show ?case
  proof (cases "start < length s")
    case False
    with 1(3) show ?thesis by (simp add: chunk_loop.simps[of s md start idx])
  next
    case True
    have ns: "start \<le> next_start s start" using next_start_ge[of start s] by simp
    show ?thesis
    proof (cases "keep_chunk s start")
      case k: True
      from 1(3) True k have
        "c = (chunk_text_at s start,
              chunk_metadata md idx start (chunk_end s start) (length (chunk_text_at s start)) (length s))
         \<or> c \<in> set (chunk_loop s md (next_start s start) (idx + 1))"
        by (simp add: chunk_loop.simps[of s md start idx])
      then show ?thesis
      proof
        assume "c \<in> set (chunk_loop s md (next_start s start) (idx + 1))"
        from 1(1)[OF True k this] obtain st i where
          "next_start s start \<le> st" and r: "st < length s" "keep_chunk s st"
          "c = (chunk_text_at s st,
                chunk_metadata md i st (chunk_end s st) (length (chunk_text_at s st)) (length s))"
          by blast
        with ns have "start \<le> st" by simp
        with r show ?thesis by (intro exI[of _ st] exI[of _ i]) simp
      qed (use True k in \<open>intro exI[of _ start] exI[of _ idx], simp\<close>)
    next
      case k: False
      from 1(3) True k have "c \<in> set (chunk_loop s md (next_start s start) idx)"
        by (simp add: chunk_loop.simps[of s md start idx])
      from 1(2)[OF True k this] obtain st i where
        "next_start s start \<le> st" and r: "st < length s" "keep_chunk s st"
        "c = (chunk_text_at s st,
              chunk_metadata md i st (chunk_end s st) (length (chunk_text_at s st)) (length s))"
        by blast
      with ns have "start \<le> st" by simp
      with r show ?thesis by (intro exI[of _ st] exI[of _ i]) simp
    qed
  qed
qed

lemma covered_Cons: "covered (c # cs) i \<longleftrightarrow> in_span i c \<or> covered cs i"
  by (simp add: covered_def)

subsection \<open>Unfolding the loop\<close>

lemma chunk_loop_keep:
  "start < length s \<Longrightarrow> keep_chunk s start \<Longrightarrow>
   chunk_loop s md start idx =
     (chunk_text_at s start,
      chunk_metadata md idx start (chunk_end s start) (length (chunk_text_at s start)) (length s))
     # chunk_loop s md (next_start s start) (idx + 1)"
  by (simp add: chunk_loop.simps[of s md start idx])

lemma chunk_loop_skip:
  "start < length s \<Longrightarrow> \<not> keep_chunk s start \<Longrightarrow>
   chunk_loop s md start idx = chunk_loop s md (next_start s start) idx"
  by (simp add: chunk_loop.simps[of s md start idx])

lemma chunk_loop_stop: "length s \<le> start \<Longrightarrow> chunk_loop s md start idx = []"
  by (simp add: chunk_loop.simps[of s md start idx])

lemma loop_starts_step:
  "start < length s \<Longrightarrow> loop_starts s start = start # loop_starts s (next_start s start)"
  by (simp add: loop_starts.simps[of s start])

lemma loop_starts_stop: "length s \<le> start \<Longrightarrow> loop_starts s start = []"
  by (simp add: loop_starts.simps[of s start])

lemma next_start_eq:
  "next_start s start = max (start + min_chunk_size) (chunk_end s start - overlap_size)"
  by (simp add: next_start_def Let_def min_chunk_size_def)

subsection \<open>Texts without sentence delimiters\<close>

lemma matches_at_set: "matches_at s p i \<Longrightarrow> set p \<subseteq> set s"
proof -
  assume "matches_at s p i"
  then have "p = take (length p) (drop i s)" by (simp add: matches_at_def)
  then have "set p \<subseteq> set (drop i s)" by (metis set_take_subset)
  also have "\<dots> \<subseteq> set s" by (rule set_drop_subset)
  finally show ?thesis .
qed

lemma rfind_absent: "\<not> set p \<subseteq> set s \<Longrightarrow> rfind s p lo hi = - 1"
  using rfind_cases[of s p lo hi] matches_at_set[of s p] by auto

lemma sentence_pattern_head:
  "p \<in> set sentence_patterns \<Longrightarrow> hd p \<in> {CHR ''.'', CHR ''!'', CHR ''?''}"
  by (auto simp: sentence_patterns_def)

lemma chunk_end_no_delimiter:
  assumes "start + max_chunk_size < length s"
    and "\<forall>c\<in>set s. c \<notin> {CHR ''.'', CHR ''!'', CHR ''?''}"
  shows "chunk_end s start = start + max_chunk_size"
proof -
  have "rfind s p lo hi = - 1" if "p \<in> set sentence_patterns" for p lo hi
  proof (rule rfind_absent)
    from that have "p \<noteq> []" using sentence_pattern_length[OF that] by auto
    then have "hd p \<in> set p" by simp
    with sentence_pattern_head[OF that] assms(2) show "\<not> set p \<subseteq> set s" by blast
  qed
  then have "scan_patterns s lo hi sentence_patterns (- 1) = - 1" for lo hi
    by (intro scan_patterns_none) simp
  then show ?thesis using assms(1) by (simp add: chunk_end_def Let_def min_def)
qed

subsection \<open>Stripping, and texts that are not blank\<close>

lemma isspace_blank: "isspace CHR '' ''" and not_isspace_a: "\<not> isspace CHR ''a''"
  by (simp_all add: isspace_def)

lemma strip_replicate_a: "strip (replicate n CHR ''a'') = replicate n CHR ''a''"
proof (cases n)
  case 0 then show ?thesis by (simp add: strip_def)
next
  case (Suc k)
  then show ?thesis by (intro strip_id) (simp_all add: not_isspace_a)
qed

lemma strip_blanks_a:
  "strip (replicate m CHR '' '' @ replicate n CHR ''a'') = replicate n CHR ''a''"
  by (simp add: strip_lead isspace_blank strip_replicate_a)


lemma set_slice_subset: "set (slice s a b) \<subseteq> set s"
  unfolding slice_def by (meson set_take_subset set_drop_subset subset_trans)

lemma keep_first_not_blank:
  assumes "0 < length s" "keep_chunk s 0"
  shows "strip s \<noteq> []"
proof
  assume "strip s = []"
  then have all: "\<forall>c\<in>set s. isspace c" by (simp add: strip_eq_Nil)
  with set_slice_subset[of s 0 "chunk_end s 0"]
  have "\<forall>c\<in>set (slice s 0 (chunk_end s 0)). isspace c" by blast
  then have "chunk_text_at s 0 = []" by (simp add: chunk_text_at_def strip_eq_Nil)
  with assms show False by (simp add: keep_chunk_def min_chunk_size_def)
qed


subsection \<open>The emitted chunks\<close>

lemma create_text_chunks_elem:
  assumes "c \<in> set (create_text_chunks s md)"
  shows "\<exists>st i. st < length s \<and> keep_chunk s st \<and>
     c = (chunk_text_at s st,
          chunk_metadata md i st (chunk_end s st) (length (chunk_text_at s st)) (length s))"
proof -
  from assms have "c \<in> set (chunk_loop s md 0 0)"
    by (simp add: create_text_chunks_def split: if_splits)
  from chunk_loop_elem[OF this] show ?thesis by blast
qed

lemma length_chunk_text_at:
  "length (chunk_text_at s st) \<le> chunk_end s st - st"
proof -
  have "length (chunk_text_at s st) \<le> length (slice s st (chunk_end s st))"
    unfolding chunk_text_at_def by (rule length_strip_le)
  also have "\<dots> \<le> chunk_end s st - st" by (simp add: length_slice)
  finally show ?thesis .
qed

lemma short_text_chunks:
  assumes "s \<noteq> []" "length s < min_chunk_size" "\<not> isspace (hd s)" "\<not> isspace (last s)"
  shows "create_text_chunks s md = [(s, chunk_metadata md 0 0 (length s) (length s) (length s))]"
proof -
  have st: "strip s = s" using assms by (intro strip_id)
  have e: "chunk_end s 0 = length s"
    using assms(2) by (intro chunk_end_final) (simp add: min_chunk_size_def max_chunk_size_def)
  have t: "chunk_text_at s 0 = s" by (simp add: chunk_text_at_def e slice_def st)
  have k: "keep_chunk s 0" by (simp add: keep_chunk_def t)
  have n: "length s \<le> next_start s 0"
    using next_start_ge[of 0 s] assms(2) by simp
  have "chunk_loop s md 0 0 =
      (s, chunk_metadata md 0 0 (length s) (length s) (length s)) # chunk_loop s md (next_start s 0) (0 + 1)"
    using chunk_loop_keep[of 0 s md 0] assms(1) k by (simp add: t e)
  also have "chunk_loop s md (next_start s 0) (0 + 1) = []" using n by (rule chunk_loop_stop)
  finally show ?thesis using st assms(1) by (simp add: create_text_chunks_def)
qed

subsection \<open>Where a chunk ends when the window holds a delimiter\<close>

lemma rfind_eq:
  assumes "lo \<le> i" "i + length p \<le> hi" "matches_at s p i" "p \<noteq> []"
    and later: "\<forall>j. i < j \<and> j + length p \<le> hi \<longrightarrow> \<not> matches_at s p j"
  shows "rfind s p lo hi = int i"
proof -
  have ge: "int i \<le> rfind s p lo hi" using assms(1-4) by (rule rfind_max)
  from rfind_cases[of s p lo hi] show ?thesis
  proof
    assume "rfind s p lo hi = - 1"
    with ge show ?thesis by simp
  next
    assume "\<exists>k. rfind s p lo hi = int k \<and> lo \<le> k \<and> k + length p \<le> hi
        \<and> k + length p \<le> length s \<and> matches_at s p k"
    then obtain k where k: "rfind s p lo hi = int k" "k + length p \<le> hi" "matches_at s p k"
      by blast
    from later k(2,3) have "\<not> i < k" by blast
    with ge k(1) show ?thesis by simp
  qed
qed

lemma chunk_end_sentence_boundary:
  assumes nonfinal: "start + max_chunk_size < length s"
    and p: "p \<in> set sentence_patterns"
    and j: "start + 1800 \<le> j" "j + 2 \<le> start + 2000" "matches_at s p j"
  shows "\<exists>q\<in>set sentence_patterns. \<exists>i. chunk_end s start = i + 2 \<and> start + 1800 \<le> i
      \<and> i + 2 \<le> start + 2000 \<and> matches_at s q i \<and> j \<le> i + 2"
proof -
  let ?e = "start + max_chunk_size"
  let ?lo = "max (start + min_chunk_size) (?e - 200)"
  let ?R = "scan_patterns s ?lo ?e sentence_patterns (- 1)"
  have ce: "chunk_end s start = (if ?R > 0 then nat ?R else ?e)"
    using nonfinal by (simp add: chunk_end_def Let_def min_def)
  have lo: "?lo = start + 1800" and e: "?e = start + 2000"
    by (simp_all add: min_chunk_size_def max_chunk_size_def)
  have len: "length p = 2" and ne: "p \<noteq> []" using sentence_pattern_length[OF p] by auto
  have "int j \<le> rfind s p ?lo ?e"
    using j len ne by (intro rfind_max) (simp_all add: min_chunk_size_def max_chunk_size_def)
  also have "\<dots> \<le> ?R" using p by (rule scan_patterns_upper)
  finally have jR: "int j \<le> ?R" .
  then have "?R \<noteq> - 1" by simp
  with scan_patterns_cases[of "- 1" s ?lo ?e sentence_patterns]
  obtain q i where q: "q \<in> set sentence_patterns" and
    R: "?R = int i + int (length q)" and b: "?lo \<le> i" "i + length q \<le> ?e" "matches_at s q i"
    by auto
  from sentence_pattern_length[OF q] R have R2: "?R = int (i + 2)" by simp
  with ce have "chunk_end s start = i + 2" by simp
  moreover from jR R2 have "j \<le> i + 2" by simp
  ultimately show ?thesis
    using q b sentence_pattern_length[OF q] lo e by (intro bexI[of _ q] exI[of _ i]) simp_all
qed

section \<open>Properties of the embedding service\<close>

lemma get_model_cases:
  "(\<exists>x. get_model lib svc = (Inl (External x), svc))
   \<or> (\<exists>m svc'. get_model lib svc = (Inr m, svc'))"
  by (auto simp: get_model_def split: option.splits sum.splits)

lemma generate_embedding_EmptyInput:
  "fst (generate_embedding lib svc txt) = Inl EmptyInput \<longleftrightarrow> strip txt = []"
  using get_model_cases[of lib svc]
  by (auto simp: generate_embedding_def split: sum.splits list.splits)

lemma filter_nonblank_Nil:
  "filter (\<lambda>t. strip t \<noteq> []) texts = [] \<longleftrightarrow> (\<forall>t\<in>set texts. strip t = [])"
  by (simp add: filter_empty_conv)

lemma generate_embeddings_AllInputsEmpty:
  "fst (generate_embeddings lib svc texts) = Inl AllInputsEmpty
     \<longleftrightarrow> texts \<noteq> [] \<and> (\<forall>t\<in>set texts. strip t = [])"
  using get_model_cases[of lib svc]
  by (auto simp: generate_embeddings_def Let_def filter_empty_conv split: sum.splits)

lemma generate_embeddings_nonblank:
  assumes "\<not> (\<forall>t\<in>set texts. strip t = [])" and "get_model lib svc = (Inr m, svc')"
  shows "generate_embeddings lib svc texts =
     (case encode lib m (filter (\<lambda>t. strip t \<noteq> []) texts) of
        Inl x \<Rightarrow> (Inl (External x), svc')
      | Inr embeddings \<Rightarrow> (Inr embeddings, svc'))"
proof -
  from assms(1) have "texts \<noteq> []" "filter (\<lambda>t. strip t \<noteq> []) texts \<noteq> []"
    by (auto simp: filter_empty_conv)
  then show ?thesis by (simp add: generate_embeddings_def Let_def assms(2))
qed

lemma example_get_model:
  "get_model example_encoder fresh_embedding_service
     = (Inr (), fresh_embedding_service\<lparr>model := Some ()\<rparr>)"
  by (simp add: get_model_def example_encoder_def fresh_embedding_service_def)

lemma example_strips:
  "strip '' '' = []" "strip [] = []" "strip ''a'' \<noteq> []" "strip ''bc'' \<noteq> []"
  by (simp_all add: strip_def isspace_def)

section \<open>Properties of the vector store\<close>

lemma get_collection_cached_cases:
  "(\<exists>x. get_collection_cached env st = (Inl (External x), st))
   \<or> (\<exists>c. get_collection_cached env st = (Inr c, st) \<and> collection st = Some c)
   \<or> (\<exists>c. get_collection_cached env st = (Inr c, st\<lparr>collection := Some c\<rparr>) \<and> collection st = None)"
  by (auto simp: get_collection_cached_def split: option.splits sum.splits)

lemma get_collection_cached_draws:
  "uuid_draws (snd (get_collection_cached env st)) = uuid_draws st"
  using get_collection_cached_cases[of env st] by auto

lemma add_document_chunks_mismatch:
  "length chunks \<noteq> length metadata_list \<Longrightarrow>
   add_document_chunks env st chunks metadata_list = (Inl LengthMismatch, st)"
  by (simp add: add_document_chunks_def)

lemma add_document_chunks_LengthMismatch:
  "fst (add_document_chunks env st chunks metadata_list) = Inl LengthMismatch
     \<longleftrightarrow> length chunks \<noteq> length metadata_list"
  using get_collection_cached_cases[of env st]
  by (auto simp: add_document_chunks_def Let_def split: prod.splits option.splits)

lemma add_document_chunks_ids:
  assumes "fst (add_document_chunks env st chunks metadata_list) = Inr ids"
  shows "ids = map (uuid4 env) [uuid_draws st ..< uuid_draws st + length chunks]
    \<and> uuid_draws (snd (add_document_chunks env st chunks metadata_list))
        = uuid_draws st + length chunks"
  using assms get_collection_cached_cases[of env st]
  by (auto simp: add_document_chunks_def Let_def split: prod.splits option.splits if_splits)

lemma example_db_add:
  "length chunks = length metadata_list \<Longrightarrow>
   add_document_chunks example_db new_db_service chunks metadata_list =
     (Inr (map (uuid4 example_db) [0 ..< length chunks]),
      \<lparr>collection = Some (zip (map (uuid4 example_db) [0 ..< length chunks])
          (zip chunks metadata_list)), uuid_draws = length chunks\<rparr>)"
  by (simp add: add_document_chunks_def get_collection_cached_def example_db_def
        new_db_service_def Let_def)

section \<open>Properties of the batch loop\<close>

lemma batch_loop_append:
  "batch_loop ienv env (xs @ ys) results st =
     (case batch_loop ienv env xs results st of
        (results', st') \<Rightarrow> batch_loop ienv env ys results' st')"
  by (induction xs arbitrary: results st) (auto split: prod.splits)

lemma batch_loop_dom:
  "dom (fst (batch_loop ienv env cfgs results st)) = dom results \<union> set (map pdf_path cfgs)"
  by (induction cfgs arbitrary: results st) (auto split: prod.splits)

lemma batch_loop_other:
  "k \<notin> set (map pdf_path cfgs) \<Longrightarrow> fst (batch_loop ienv env cfgs results st) k = results k"
  by (induction cfgs arbitrary: results st) (auto split: prod.splits)

lemma batch_step_fails:
  "fst (batch_step ienv env cfg st) =
     (if entry_fails ienv env st cfg then []
      else projr (fst (ingest_datasheet ienv env st (the (pdf_path cfg))
             (case component_info cfg of Some i \<Rightarrow> i | None \<Rightarrow> Map.empty))))"
  by (auto simp: batch_step_def entry_fails_def Let_def split: option.splits prod.splits sum.splits)

lemma batch_loop_Cons:
  "batch_loop ienv env (cfg # rest) results st =
     batch_loop ienv env rest (results(pdf_path cfg \<mapsto> fst (batch_step ienv env cfg st)))
       (snd (batch_step ienv env cfg st))"
  by (simp split: prod.splits)

lemma pdf_path_config_of: "pdf_path (config_of p) = Some p"
  by (simp add: config_of_def)

lemma example_step_missing:
  "batch_step example_files example_db (config_of ''missing.pdf'') st = ([], st)"
  by (simp add: batch_step_def config_of_def example_files_def)

lemma example_step_bad:
  "batch_step example_files example_db (config_of ''bad.pdf'') st = ([], st)"
  by (simp add: batch_step_def config_of_def example_files_def ingest_datasheet_def
        extract_text_from_pdf_def)

lemma example_text_chunks:
  "create_text_chunks ''Datasheet text.'' md =
     [(''Datasheet text.'', chunk_metadata md 0 0 15 15 15)]"
  using short_text_chunks[of "''Datasheet text.''" md]
  by (simp add: min_chunk_size_def isspace_def eval_nat_numeral)

lemma example_add_one:
  "fst (add_document_chunks example_db st [t] [m]) = Inr [uuid4 example_db (uuid_draws st)]"
  "uuid_draws (snd (add_document_chunks example_db st [t] [m])) = Suc (uuid_draws st)"
  by (simp_all add: add_document_chunks_def get_collection_cached_def example_db_def Let_def
        split: option.splits)

lemma example_ingest:
  assumes "p \<noteq> ''bad.pdf''"
  shows "fst (ingest_datasheet example_files example_db st p info)
      = Inr [uuid4 example_db (uuid_draws st)]"
    and "uuid_draws (snd (ingest_datasheet example_files example_db st p info))
      = Suc (uuid_draws st)"
proof -
  have ex: "extract_text_from_pdf example_files p = Inr ''Datasheet text.''"
    using assms by (simp add: extract_text_from_pdf_def example_files_def strip_def isspace_def)
  have ct: "clean_text example_files t = t" for t by (simp add: example_files_def)
  show "fst (ingest_datasheet example_files example_db st p info)
      = Inr [uuid4 example_db (uuid_draws st)]"
    by (simp add: ingest_datasheet_def ex Let_def ct example_text_chunks example_add_one)
  show "uuid_draws (snd (ingest_datasheet example_files example_db st p info))
      = Suc (uuid_draws st)"
    by (simp add: ingest_datasheet_def ex Let_def ct example_text_chunks example_add_one)
qed

lemma example_step_good:
  assumes "p \<noteq> []" "p \<noteq> ''missing.pdf''" "p \<noteq> ''bad.pdf''"
  shows "fst (batch_step example_files example_db (config_of p) st)
      = [uuid4 example_db (uuid_draws st)]
    \<and> uuid_draws (snd (batch_step example_files example_db (config_of p) st))
        = Suc (uuid_draws st)"
proof -
  have pe: "path_exists example_files p" using assms(2) by (simp add: example_files_def)
  obtain r st' where i: "ingest_datasheet example_files example_db st p Map.empty = (r, st')"
    by (cases "ingest_datasheet example_files example_db st p Map.empty") auto
  with example_ingest[OF assms(3), of st Map.empty]
  have "r = Inr [uuid4 example_db (uuid_draws st)]" "uuid_draws st' = Suc (uuid_draws st)"
    by simp_all
  then show ?thesis using assms(1) pe i by (simp add: batch_step_def config_of_def)
qed

section \<open>Coverage of the text by the emitted chunks\<close>

subsection \<open>The slices up to the first one that reaches the end\<close>

lemma starts_until_end_more:
  "start < length s \<Longrightarrow> chunk_end s start < length s \<Longrightarrow>
   starts_until_end s start = start # starts_until_end s (next_start s start)"
  by (simp add: starts_until_end.simps[of s start])

lemma starts_until_end_last:
  "start < length s \<Longrightarrow> chunk_end s start = length s \<Longrightarrow> starts_until_end s start = [start]"
  by (simp add: starts_until_end.simps[of s start])

lemma chunk_loop_covers_until_end:
  "start \<le> i \<Longrightarrow> i < length s \<Longrightarrow> list_all (keep_chunk s) (starts_until_end s start) \<Longrightarrow>
   covered (chunk_loop s md start idx) i"
proof (induction s md start idx rule: chunk_loop.induct)
  case (1 s md start idx)
  from 1(3,4) have lt: "start < length s" by simp
  from 1(5) lt have k: "keep_chunk s start"
    by (simp add: starts_until_end.simps[of s start])
  have unfold: "chunk_loop s md start idx =
      (chunk_text_at s start,
       chunk_metadata md idx start (chunk_end s start) (length (chunk_text_at s start)) (length s))
      # chunk_loop s md (next_start s start) (idx + 1)"
    using lt k by (rule chunk_loop_keep)
  show ?case
  proof (cases "i < chunk_end s start")
    case True
    with 1(3) show ?thesis
      by (simp add: unfold covered_Cons in_span_def meta_int_chunk_metadata)
  next
    case False
    with 1(4) have e: "chunk_end s start < length s" by simp
    with 1(5) lt have rest: "list_all (keep_chunk s) (starts_until_end s (next_start s start))"
      by (simp add: starts_until_end_more)
    have "start + max_chunk_size < length s"
    proof (rule ccontr)
      assume "\<not> start + max_chunk_size < length s"
      then have "chunk_end s start = length s" by (simp add: chunk_end_final)
      with e show False by simp
    qed
    from next_start_le_end[OF this] False have "next_start s start \<le> i" by simp
    from 1(1)[OF lt k this 1(4) rest] show ?thesis by (simp add: unfold covered_Cons)
  qed
qed

lemma starts_until_end_subset:
  "set (starts_until_end s start) \<subseteq> set (loop_starts s start)"
proof (induction s start rule: loop_starts.induct)
  case (1 s start)
  show ?case
  proof (cases "start < length s")
    case False
    then show ?thesis by (simp add: starts_until_end.simps[of s start])
  next
    case True
    with 1 show ?thesis
      by (auto simp: starts_until_end.simps[of s start] loop_starts_step)
  qed
qed

text \<open>
  Conversely, a discarded slice among these leaves a position that no emitted chunk covers.
\<close>

lemma covered_chunk_loop_ge:
  assumes "covered (chunk_loop s md start idx) p"
  shows "start \<le> p"
proof -
  from assms obtain c where c: "c \<in> set (chunk_loop s md start idx)" "in_span p c"
    by (auto simp: covered_def list_ex_iff)
  from chunk_loop_elem[OF c(1)] obtain st i where
    "start \<le> st" "c = (chunk_text_at s st,
        chunk_metadata md i st (chunk_end s st) (length (chunk_text_at s st)) (length s))"
    by blast
  with c(2) show ?thesis by (simp add: in_span_def meta_int_chunk_metadata)
qed

lemma chunk_loop_gap:
  "start < length s \<Longrightarrow> start \<le> lo \<Longrightarrow> lo < length s \<Longrightarrow> lo < start + min_chunk_size \<Longrightarrow>
   \<not> list_all (keep_chunk s) (starts_until_end s start) \<Longrightarrow>
   \<exists>p. lo \<le> p \<and> p < length s \<and> \<not> covered (chunk_loop s md start idx) p"
proof (induction s md start idx arbitrary: lo rule: chunk_loop.induct)
  case (1 s md start idx)
  note lt = \<open>start < length s\<close>
  show ?case
  proof (cases "keep_chunk s start")
    case False
    have "\<not> covered (chunk_loop s md start idx) lo"
    proof
      assume "covered (chunk_loop s md start idx) lo"
      then have "covered (chunk_loop s md (next_start s start) idx) lo"
        using lt False by (simp add: chunk_loop_skip)
      from covered_chunk_loop_ge[OF this] next_start_ge[of start s] 1(6) show False by simp
    qed
    with 1(4,5) show ?thesis by blast
  next
    case True
    with 1(7) lt have e: "chunk_end s start < length s"
      and rest: "\<not> list_all (keep_chunk s) (starts_until_end s (next_start s start))"
      by (auto simp: starts_until_end.simps[of s start] split: if_splits)
    have nf: "start + max_chunk_size < length s"
    proof (rule ccontr)
      assume "\<not> start + max_chunk_size < length s"
      then have "chunk_end s start = length s" by (simp add: chunk_end_final)
      with e show False by simp
    qed
    have n1: "next_start s start \<le> chunk_end s start" using nf by (rule next_start_le_end)
    with e have n2: "next_start s start < length s" by simp
    have n3: "chunk_end s start < next_start s start + min_chunk_size"
      by (simp add: next_start_eq min_chunk_size_def overlap_size_def)
    from 1(1)[OF lt True n2 n1 e n3 rest] obtain p where
      p: "chunk_end s start \<le> p" "p < length s"
      "\<not> covered (chunk_loop s md (next_start s start) (idx + 1)) p"
      by blast
    from chunk_end_nonfinal[OF nf] 1(6) have "lo \<le> chunk_end s start"
      by (simp add: min_chunk_size_def)
    with p(1) have "lo \<le> p" by simp
    moreover have "\<not> covered (chunk_loop s md start idx) p"
      using p(1,3) lt True
      by (simp add: chunk_loop_keep covered_Cons in_span_def meta_int_chunk_metadata)
    ultimately show ?thesis using p(2) by blast
  qed
qed

lemma kept_to_end_when_covered:
  assumes "\<forall>i<length s. covered (create_text_chunks s md) i"
  shows "list_all (keep_chunk s) (starts_until_end s 0)"
proof (cases "s = []")
  case True
  then show ?thesis by (simp add: starts_until_end.simps[of "[]" 0])
next
  case False
  then have pos: "0 < length s" by simp
  show ?thesis
  proof (rule ccontr)
    assume n: "\<not> list_all (keep_chunk s) (starts_until_end s 0)"
    from chunk_loop_gap[OF pos _ pos _ n, of md 0] obtain p where
      p: "p < length s" "\<not> covered (chunk_loop s md 0 0) p"
      by (auto simp: min_chunk_size_def)
    have "\<not> covered (create_text_chunks s md) p"
      using p(2) by (simp add: create_text_chunks_def covered_def)
    with assms p(1) show False by blast
  qed
qed

subsection \<open>Periodic texts, two-character patterns, a lower bound for strip\<close>

lemma nth_concat_replicate:
  "i < n * length w \<Longrightarrow> concat (replicate n w) ! i = w ! (i mod length w)"
proof (induction n arbitrary: i)
  case 0 then show ?case by simp
next
  case (Suc n)
  show ?case
  proof (cases "i < length w")
    case True then show ?thesis by (simp add: nth_append)
  next
    case False
    with Suc.prems have "i - length w < n * length w" by simp
    from Suc.IH[OF this] False show ?thesis by (simp add: nth_append le_mod_geq)
  qed
qed

lemma matches_at_pair:
  "matches_at s [a, b] i \<longleftrightarrow> i + 2 \<le> length s \<and> s ! i = a \<and> s ! (i + 1) = b"
proof
  assume m: "matches_at s [a, b] i"
  from matches_at_bound[OF m] have l: "i + 2 \<le> length s" by simp
  from m have "take 2 (drop i s) = [a, b]" by (simp add: matches_at_def numeral_2_eq_2)
  then have "take 2 (drop i s) ! 0 = a" "take 2 (drop i s) ! 1 = b" by simp_all
  with l show "i + 2 \<le> length s \<and> s ! i = a \<and> s ! (i + 1) = b" by simp
next
  assume r: "i + 2 \<le> length s \<and> s ! i = a \<and> s ! (i + 1) = b"
  then have "length (take 2 (drop i s)) = 2" by auto
  moreover have "take 2 (drop i s) ! 0 = a" "take 2 (drop i s) ! 1 = b" using r by simp_all
  ultimately have "take 2 (drop i s) = [a, b]"
    by (intro nth_equalityI) (auto simp: less_Suc_eq numeral_2_eq_2)
  then show "matches_at s [a, b] i" by (simp add: matches_at_def numeral_2_eq_2)
qed

lemma length_takeWhile_le_nth:
  assumes "j < length xs" "\<not> P (xs ! j)"
  shows "length (takeWhile P xs) \<le> j"
proof (rule ccontr)
  assume "\<not> length (takeWhile P xs) \<le> j"
  then have lt: "j < length (takeWhile P xs)" by simp
  then have "takeWhile P xs ! j = xs ! j" by (rule takeWhile_nth)
  moreover from lt have "takeWhile P xs ! j \<in> set (takeWhile P xs)" by simp
  ultimately show False using assms(2) by (auto dest: set_takeWhileD)
qed

lemma length_strip_ge:
  assumes "a \<le> b" "b < length x" "\<not> isspace (x ! a)" "\<not> isspace (x ! b)"
  shows "b - a + 1 \<le> length (strip x)"
proof -
  let ?t = "length (takeWhile isspace x)"
  let ?y = "dropWhile isspace x"
  have t: "?t \<le> a" using assms by (intro length_takeWhile_le_nth) simp_all
  have y: "?y = drop ?t x" by (rule dropWhile_eq_drop)
  have ly: "length ?y = length x - ?t" by (simp add: y)
  let ?j = "length ?y - 1 - (b - ?t)"
  have j: "?j < length (rev ?y)" using assms t ly by simp
  have "rev ?y ! ?j = ?y ! (b - ?t)" using assms t ly by (simp add: rev_nth)
  also have "\<dots> = x ! b" using assms t by (simp add: y)
  finally have "\<not> isspace (rev ?y ! ?j)" using assms(4) by simp
  with j have "length (takeWhile isspace (rev ?y)) \<le> ?j" by (rule length_takeWhile_le_nth)
  moreover have "length (strip x) = length ?y - length (takeWhile isspace (rev ?y))"
    by (simp add: strip_def dropWhile_eq_drop[of isspace "rev ?y"])
  ultimately show ?thesis using assms t ly by simp
qed

lemma nth_slice: "a + k < b \<Longrightarrow> b \<le> length s \<Longrightarrow> slice s a b ! k = s ! (a + k)"
  by (simp add: slice_def)

section \<open>C1: coverage of the text by the emitted chunks\<close>

subsection \<open>The run on the text with leading blanks\<close>

lemma leading_blanks_length: "length text_leading_blanks = 2001"
  by (simp add: text_leading_blanks_def)

lemma leading_blanks_end0: "chunk_end text_leading_blanks 0 = 2000"
proof -
  have "chunk_end text_leading_blanks 0 = 0 + max_chunk_size"
    by (rule chunk_end_no_delimiter)
       (auto simp: leading_blanks_length max_chunk_size_def text_leading_blanks_def)
  then show ?thesis by (simp add: max_chunk_size_def)
qed

lemma leading_blanks_text0: "chunk_text_at text_leading_blanks 0 = replicate 999 CHR ''a''"
proof -
  have "slice text_leading_blanks 0 2000 = replicate 1001 CHR '' '' @ replicate 999 CHR ''a''"
    by (simp add: slice_def text_leading_blanks_def)
  then show ?thesis by (simp add: chunk_text_at_def leading_blanks_end0 strip_blanks_a)
qed

lemma leading_blanks_next0: "next_start text_leading_blanks 0 = 1800"
  by (simp add: next_start_eq leading_blanks_end0 min_chunk_size_def overlap_size_def)

lemma leading_blanks_end1: "chunk_end text_leading_blanks 1800 = 2001"
  using chunk_end_final[of text_leading_blanks 1800]
  by (simp add: leading_blanks_length max_chunk_size_def)

lemma leading_blanks_text1: "chunk_text_at text_leading_blanks 1800 = replicate 201 CHR ''a''"
proof -
  have "slice text_leading_blanks 1800 2001 = replicate 201 CHR ''a''"
    by (simp add: slice_def text_leading_blanks_def)
  then show ?thesis by (simp add: chunk_text_at_def leading_blanks_end1 strip_replicate_a)
qed

lemma leading_blanks_next1: "next_start text_leading_blanks 1800 = 2800"
  by (simp add: next_start_eq leading_blanks_end1 min_chunk_size_def overlap_size_def)

lemma leading_blanks_chunks:
  "create_text_chunks text_leading_blanks md =
     [(replicate 201 CHR ''a'', chunk_metadata md 0 1800 2001 201 2001)]"
proof -
  have nb: "strip text_leading_blanks \<noteq> []"
    by (simp add: text_leading_blanks_def strip_blanks_a)
  have k0: "\<not> keep_chunk text_leading_blanks 0"
    by (simp add: keep_chunk_def leading_blanks_text0 leading_blanks_length min_chunk_size_def)
  have k1: "keep_chunk text_leading_blanks 1800"
    by (simp add: keep_chunk_def leading_blanks_text1 leading_blanks_length)
  have "chunk_loop text_leading_blanks md 0 0 = chunk_loop text_leading_blanks md 1800 0"
    using chunk_loop_skip[of 0 text_leading_blanks md 0] k0
    by (simp add: leading_blanks_length leading_blanks_next0)
  also have "\<dots> = (replicate 201 CHR ''a'', chunk_metadata md 0 1800 2001 201 2001)
      # chunk_loop text_leading_blanks md 2800 (0 + 1)"
    using chunk_loop_keep[of 1800 text_leading_blanks md 0] k1
    by (simp add: leading_blanks_length leading_blanks_next1 leading_blanks_text1
          leading_blanks_end1)
  also have "chunk_loop text_leading_blanks md 2800 (0 + 1) = []"
    by (rule chunk_loop_stop) (simp add: leading_blanks_length)
  finally show ?thesis using nb by (simp add: create_text_chunks_def)
qed

subsection \<open>The run on the 150 test sentences\<close>

lemma test_sentence_length: "length test_sentence = 25"
  by (simp add: test_sentence_def)

lemma test_sentences_length: "length text_test_sentences = 3750"
  by (simp add: text_test_sentences_def length_concat test_sentence_length sum_list_replicate)

lemma test_sentences_nth:
  "i < 3750 \<Longrightarrow> text_test_sentences ! i = test_sentence ! (i mod 25)"
  using nth_concat_replicate[of i 150 test_sentence]
  by (simp add: text_test_sentences_def test_sentence_length)

lemma test_sentences_set:
  "set text_test_sentences = set test_sentence"
  by (simp add: text_test_sentences_def)

lemma test_sentences_rfind_dot: "rfind text_test_sentences ''. '' 1800 2000 = 1998"
proof -
  have m: "matches_at text_test_sentences ''. '' 1998"
    by (simp add: matches_at_pair test_sentences_length test_sentences_nth test_sentence_def)
  have "rfind text_test_sentences ''. '' 1800 2000 = int 1998"
    using m by (intro rfind_eq) auto
  then show ?thesis by simp
qed

lemma test_sentences_rfind_others:
  "rfind text_test_sentences ''! '' 1800 2000 = - 1"
  "rfind text_test_sentences ''? '' 1800 2000 = - 1"
  "rfind text_test_sentences [CHR ''.'', CHR 0x0A] 1800 2000 = - 1"
  "rfind text_test_sentences [CHR ''!'', CHR 0x0A] 1800 2000 = - 1"
  "rfind text_test_sentences [CHR ''?'', CHR 0x0A] 1800 2000 = - 1"
  by (rule rfind_absent, simp add: test_sentences_set test_sentence_def)+

lemma test_sentences_end0: "chunk_end text_test_sentences 0 = 2000"
  by (simp add: chunk_end_def Let_def test_sentences_length max_chunk_size_def min_chunk_size_def
        sentence_patterns_def test_sentences_rfind_dot test_sentences_rfind_others)

lemma test_sentences_next0: "next_start text_test_sentences 0 = 1800"
  by (simp add: next_start_eq test_sentences_end0 min_chunk_size_def overlap_size_def)

lemma test_sentences_end1: "chunk_end text_test_sentences 1800 = 3750"
  using chunk_end_final[of text_test_sentences 1800]
  by (simp add: test_sentences_length max_chunk_size_def)

lemma test_sentences_starts: "starts_until_end text_test_sentences 0 = [0, 1800]"
proof -
  have "starts_until_end text_test_sentences 0 = 0 # starts_until_end text_test_sentences 1800"
    using starts_until_end_more[of 0 text_test_sentences]
    by (simp add: test_sentences_length test_sentences_end0 test_sentences_next0)
  also have "starts_until_end text_test_sentences 1800 = [1800]"
    by (rule starts_until_end_last) (simp_all add: test_sentences_length test_sentences_end1)
  finally show ?thesis .
qed

lemma not_isspace_letters: "\<not> isspace CHR ''T''" "\<not> isspace CHR ''.''"
  by (simp_all add: isspace_def)

lemma test_sentences_kept:
  "keep_chunk text_test_sentences 0" "keep_chunk text_test_sentences 1800"
proof -
  have "1998 - 0 + 1 \<le> length (strip (slice text_test_sentences 0 2000))"
    by (rule length_strip_ge)
       (simp_all add: length_slice nth_slice test_sentences_length test_sentences_nth
          test_sentence_def not_isspace_letters)
  then show "keep_chunk text_test_sentences 0"
    by (simp add: keep_chunk_def chunk_text_at_def test_sentences_end0 min_chunk_size_def)
  have "1948 - 0 + 1 \<le> length (strip (slice text_test_sentences 1800 3750))"
    by (rule length_strip_ge)
       (simp_all add: length_slice nth_slice test_sentences_length test_sentences_nth
          test_sentence_def not_isspace_letters)
  then show "keep_chunk text_test_sentences 1800"
    by (simp add: keep_chunk_def chunk_text_at_def test_sentences_end1 min_chunk_size_def)
qed

lemma test_sentences_last_dropped: "\<not> keep_chunk text_test_sentences 3550"
proof -
  have e: "chunk_end text_test_sentences 3550 = 3750"
    using chunk_end_final[of text_test_sentences 3550]
    by (simp add: test_sentences_length max_chunk_size_def)
  have len: "length (slice text_test_sentences 3550 3750) = 200"
    by (simp add: length_slice test_sentences_length)
  then have ne: "slice text_test_sentences 3550 3750 \<noteq> []" by auto
  then have sl: "slice text_test_sentences 3550 3750
      = butlast (slice text_test_sentences 3550 3750) @ [last (slice text_test_sentences 3550 3750)]"
    by simp
  have "last (slice text_test_sentences 3550 3750) = slice text_test_sentences 3550 3750 ! 199"
    using last_conv_nth[OF ne] by (simp add: len)
  also have "\<dots> = CHR '' ''"
    by (simp add: nth_slice test_sentences_length test_sentences_nth test_sentence_def)
  finally have "strip (slice text_test_sentences 3550 3750)
      = strip (butlast (slice text_test_sentences 3550 3750))"
    using sl strip_trail[of "[CHR '' '']" "butlast (slice text_test_sentences 3550 3750)"]
    by (simp add: isspace_blank)
  then have "length (strip (slice text_test_sentences 3550 3750)) \<le> 199"
    using length_strip_le[of "butlast (slice text_test_sentences 3550 3750)"]
    by (simp add: len)
  then show ?thesis
    by (simp add: keep_chunk_def chunk_text_at_def e test_sentences_length min_chunk_size_def)
qed

text \<open>
  C1, as amended. The spans of the emitted chunks cover \<open>[0, len(text))\<close> for every text
  of at least \<open>min_chunk_size\<close> characters in which the test of line 137 (stripped length at
  least \<open>min_chunk_size\<close>, or \<open>start_pos\<close> plus the stripped length reaches the end of the
  text) discards none of the slices that the loop visits up to and including the first one
  that reaches the end of the text. By \<open>kept_to_end_when_covered\<close> above the condition is
  also necessary.
\<close>

theorem chunks_cover_when_kept_to_end:
  assumes "min_chunk_size \<le> length s"
    and "list_all (keep_chunk s) (starts_until_end s 0)"
    and "i < length s"
  shows "covered (create_text_chunks s md) i"
proof -
  from assms(3) have pos: "0 < length s" by (cases s) simp_all
  with assms(2) have "keep_chunk s 0" by (simp add: starts_until_end.simps[of s 0])
  with pos have "strip s \<noteq> []" by (rule keep_first_not_blank)
  moreover have "covered (chunk_loop s md 0 0) i"
    using assms(2,3) by (intro chunk_loop_covers_until_end) simp_all
  ultimately show ?thesis by (simp add: create_text_chunks_def)
qed

text \<open>
  The hypotheses hold for the 150 test sentences: the slices [0, 2000) and [1800, 3750) are
  emitted, the second reaches the end, and the third slice, [3550, 3750), is discarded
  without harm.
\<close>

theorem chunks_cover_when_kept_to_end_witness:
  "min_chunk_size \<le> length text_test_sentences
   \<and> list_all (keep_chunk text_test_sentences) (starts_until_end text_test_sentences 0)
   \<and> 3749 < length text_test_sentences
   \<and> covered (create_text_chunks text_test_sentences Map.empty) 3749"
proof -
  have h1: "min_chunk_size \<le> length text_test_sentences"
    by (simp add: test_sentences_length min_chunk_size_def)
  have h2: "list_all (keep_chunk text_test_sentences) (starts_until_end text_test_sentences 0)"
    by (simp add: test_sentences_starts test_sentences_kept)
  have h3: "3749 < length text_test_sentences" by (simp add: test_sentences_length)
  from chunks_cover_when_kept_to_end[OF h1 h2 h3, of Map.empty] h1 h2 h3 show ?thesis by simp
qed

text \<open>
  The claim as stated fails: in 1001 blanks followed by 1000 letters the first slice, [0, 2000),
  strips to 999 characters and is discarded, and the only emitted chunk spans [1800, 2001).
\<close>

theorem coverage_counterexample:
  "min_chunk_size \<le> length text_leading_blanks
   \<and> 0 < length text_leading_blanks
   \<and> \<not> covered (create_text_chunks text_leading_blanks Map.empty) 0"
  by (simp add: leading_blanks_chunks leading_blanks_length min_chunk_size_def covered_def
        in_span_def meta_int_chunk_metadata)

section \<open>C2: texts shorter than the minimum chunk size\<close>

text \<open>
  C2. A text shorter than \<open>min_chunk_size\<close> that neither starts nor ends with whitespace is
  returned as one chunk (\<open>short_text_chunks\<close> above). With whitespace at either end the test
  of line 137 compares \<open>start_pos\<close> plus the stripped length with the unstripped length of
  the text and discards the only chunk: the text \<open>" a"\<close> has the non-empty stripped form
  \<open>"a"\<close>, and no chunk is returned for it.
\<close>

theorem short_text_leading_blank_dropped:
  "length '' a'' < min_chunk_size \<and> strip '' a'' = ''a''
   \<and> create_text_chunks '' a'' Map.empty = []"
proof -
  have st: "strip '' a'' = ''a''" by (simp add: strip_def isspace_def)
  have e: "chunk_end '' a'' 0 = 2" by (simp add: chunk_end_def max_chunk_size_def)
  have t: "chunk_text_at '' a'' 0 = ''a''" by (simp add: chunk_text_at_def e slice_def st)
  have k: "\<not> keep_chunk '' a'' 0" by (simp add: keep_chunk_def t min_chunk_size_def)
  have "chunk_loop '' a'' Map.empty 0 0 = chunk_loop '' a'' Map.empty (next_start '' a'' 0) 0"
    using chunk_loop_skip[of 0 "'' a''" Map.empty 0] k by simp
  also have "\<dots> = []"
    using next_start_ge[of 0 "'' a''"] by (intro chunk_loop_stop) (simp add: min_chunk_size_def)
  finally show ?thesis using st by (simp add: create_text_chunks_def min_chunk_size_def)
qed

section \<open>C3: the sentence boundary chosen in the window\<close>

subsection \<open>The run on the text with two adjacent delimiters\<close>

lemma adjacent_length: "length text_adjacent_delimiters = 2100"
  by (simp add: text_adjacent_delimiters_def)

lemma adjacent_set:
  "set text_adjacent_delimiters = {CHR ''a'', CHR ''.'', CHR '' '', CHR ''!''}"
  by (auto simp: text_adjacent_delimiters_def)

lemma adjacent_drop:
  "drop 1996 text_adjacent_delimiters = ''. ! '' @ replicate 100 CHR ''a''"
  "drop 1997 text_adjacent_delimiters = '' ! '' @ replicate 100 CHR ''a''"
  "drop 1998 text_adjacent_delimiters = ''! '' @ replicate 100 CHR ''a''"
  by (simp_all add: text_adjacent_delimiters_def)

lemma adjacent_matches:
  "matches_at text_adjacent_delimiters ''. '' 1996"
  "\<not> matches_at text_adjacent_delimiters ''. '' 1997"
  "\<not> matches_at text_adjacent_delimiters ''. '' 1998"
  "matches_at text_adjacent_delimiters ''! '' 1998"
  by (simp_all add: matches_at_def adjacent_drop)

lemma adjacent_rfind_dot: "rfind text_adjacent_delimiters ''. '' 1800 2000 = 1996"
proof -
  have "\<not> matches_at text_adjacent_delimiters ''. '' j"
    if "1996 < j \<and> j + length ''. '' \<le> 2000" for j
  proof -
    from that have "j = 1997 \<or> j = 1998" by auto
    then show ?thesis using adjacent_matches(2,3) by blast
  qed
  then have "rfind text_adjacent_delimiters ''. '' 1800 2000 = int 1996"
    using adjacent_matches(1) by (intro rfind_eq) simp_all
  then show ?thesis by simp
qed

lemma adjacent_rfind_bang: "rfind text_adjacent_delimiters ''! '' 1800 2000 = 1998"
proof -
  have "rfind text_adjacent_delimiters ''! '' 1800 2000 = int 1998"
    using adjacent_matches(4) by (intro rfind_eq) auto
  then show ?thesis by simp
qed

lemma adjacent_rfind_others:
  "rfind text_adjacent_delimiters ''? '' 1800 2000 = - 1"
  "rfind text_adjacent_delimiters [CHR ''.'', CHR 0x0A] 1800 2000 = - 1"
  "rfind text_adjacent_delimiters [CHR ''!'', CHR 0x0A] 1800 2000 = - 1"
  "rfind text_adjacent_delimiters [CHR ''?'', CHR 0x0A] 1800 2000 = - 1"
  by (rule rfind_absent, simp add: adjacent_set)+

lemma adjacent_end0: "chunk_end text_adjacent_delimiters 0 = 1998"
  by (simp add: chunk_end_def Let_def adjacent_length max_chunk_size_def min_chunk_size_def
        sentence_patterns_def adjacent_rfind_dot adjacent_rfind_bang adjacent_rfind_others)

lemma adjacent_text0:
  "chunk_text_at text_adjacent_delimiters 0 = replicate 1996 CHR ''a'' @ ''.''"
proof -
  have "slice text_adjacent_delimiters 0 1998 = (replicate 1996 CHR ''a'' @ ''.'') @ '' ''"
    by (simp add: slice_def text_adjacent_delimiters_def)
  moreover have "strip (replicate 1996 CHR ''a'' @ ''.'') = replicate 1996 CHR ''a'' @ ''.''"
    by (intro strip_id) (simp_all add: isspace_def hd_append)
  ultimately show ?thesis
    by (simp add: chunk_text_at_def adjacent_end0 strip_trail[of "'' ''"] isspace_blank
          del: append_assoc)
qed

text \<open>
  C3. When the window holds a delimiter, a chunk that is not the last ends just after a
  delimiter of the window (\<open>chunk_end_sentence_boundary\<close> above), but not always after
  the latest: line 128 compares the start \<open>pos\<close> of an occurrence with the end
  \<open>sentence_end\<close> of the one found before. In 1996 letters followed by \<open>". ! "\<close> and 100
  letters the window of the first iteration is [1800, 2000); it holds \<open>". "\<close> at 1996 and
  \<open>"! "\<close> at 1998, the latest delimiter ends at 2000, and the chunk ends at 1998.
\<close>

theorem sentence_end_not_latest:
  "length text_adjacent_delimiters = 2100
   \<and> matches_at text_adjacent_delimiters ''. '' 1996
   \<and> matches_at text_adjacent_delimiters ''! '' 1998
   \<and> chunk_end text_adjacent_delimiters 0 = 1998
   \<and> fst (hd (create_text_chunks text_adjacent_delimiters Map.empty))
       = replicate 1996 CHR ''a'' @ ''.''
   \<and> meta_int (snd (hd (create_text_chunks text_adjacent_delimiters Map.empty))) ''chunk_end''
       = 1998"
proof -
  have nb: "strip text_adjacent_delimiters \<noteq> []"
    by (simp add: strip_eq_Nil adjacent_set not_isspace_a)
  have k: "keep_chunk text_adjacent_delimiters 0"
    by (simp add: keep_chunk_def adjacent_text0 min_chunk_size_def)
  have "chunk_loop text_adjacent_delimiters Map.empty 0 0 =
      (replicate 1996 CHR ''a'' @ ''.'', chunk_metadata Map.empty 0 0 1998 1997 2100)
      # chunk_loop text_adjacent_delimiters Map.empty (next_start text_adjacent_delimiters 0) (0 + 1)"
    using chunk_loop_keep[of 0 text_adjacent_delimiters Map.empty 0] k
    by (simp add: adjacent_length adjacent_text0 adjacent_end0)
  with nb have "hd (create_text_chunks text_adjacent_delimiters Map.empty)
      = (replicate 1996 CHR ''a'' @ ''.'', chunk_metadata Map.empty 0 0 1998 1997 2100)"
    by (simp add: create_text_chunks_def)
  then show ?thesis
    by (simp add: adjacent_length adjacent_matches adjacent_end0 meta_int_chunk_metadata)
qed

section \<open>C4: progress and termination of the chunking loop\<close>

text \<open>
  C4. \<open>chunk_loop\<close> and \<open>loop_starts\<close> are total functions: their definitions carry the
  termination proof of the \<open>while\<close> loop, whose measure \<open>len(text) - start_pos\<close> decreases.
  The cursor grows by at least \<open>min_chunk_size\<close> in every iteration; the loop body runs at
  the cursor values \<open>loop_starts s 0\<close>, so it runs at most \<open>ceil(len(text) / min_chunk_size)\<close>
  times, and no more chunks than that are emitted.
\<close>

theorem chunking_progress:
  "start_pos + min_chunk_size \<le> next_start s start_pos
   \<and> loop_starts s start_pos =
       (if start_pos < length s then start_pos # loop_starts s (next_start s start_pos) else [])
   \<and> length (loop_starts s 0) \<le> (length s + (min_chunk_size - 1)) div min_chunk_size
   \<and> length (create_text_chunks s md) \<le> length (loop_starts s 0)
   \<and> length (create_text_chunks s md) \<le> (length s + (min_chunk_size - 1)) div min_chunk_size"
proof -
  have a: "length (loop_starts s 0) \<le> (length s + (min_chunk_size - 1)) div min_chunk_size"
    using length_loop_starts[of s 0] by simp
  have b: "length (create_text_chunks s md) \<le> length (loop_starts s 0)"
    using length_chunk_loop[of s md 0 0] by (simp add: create_text_chunks_def)
  from a b have c: "length (create_text_chunks s md) \<le> (length s + (min_chunk_size - 1)) div min_chunk_size"
    by (rule order_trans[rotated])
  show ?thesis
    using next_start_ge[of start_pos s] loop_starts.simps[of s start_pos] a b c by blast
qed

section \<open>C5: the metadata of an emitted chunk\<close>

subsection \<open>The run on the text with a trailing blank\<close>

lemma trailing_blank_length: "length text_trailing_blank = 1001"
  by (simp add: text_trailing_blank_def)

lemma trailing_blank_strip: "strip text_trailing_blank = replicate 1000 CHR ''a''"
  unfolding text_trailing_blank_def
  by (simp add: strip_trail[of "'' ''"] isspace_blank strip_replicate_a)

lemma trailing_blank_end0: "chunk_end text_trailing_blank 0 = 1001"
  using chunk_end_final[of text_trailing_blank 0]
  by (simp add: trailing_blank_length max_chunk_size_def)

lemma trailing_blank_text0: "chunk_text_at text_trailing_blank 0 = replicate 1000 CHR ''a''"
  by (simp add: chunk_text_at_def trailing_blank_end0 slice_def trailing_blank_strip
        trailing_blank_length[symmetric])

lemma trailing_blank_first:
  "hd (create_text_chunks text_trailing_blank md) =
     (replicate 1000 CHR ''a'', chunk_metadata md 0 0 1001 1000 1001)
   \<and> create_text_chunks text_trailing_blank md \<noteq> []"
proof -
  have k: "keep_chunk text_trailing_blank 0"
    by (simp add: keep_chunk_def trailing_blank_text0 min_chunk_size_def)
  have "chunk_loop text_trailing_blank md 0 0 =
      (replicate 1000 CHR ''a'', chunk_metadata md 0 0 1001 1000 1001)
      # chunk_loop text_trailing_blank md (next_start text_trailing_blank 0) (0 + 1)"
    using chunk_loop_keep[of 0 text_trailing_blank md 0] k
    by (simp add: trailing_blank_length trailing_blank_text0 trailing_blank_end0)
  then show ?thesis by (simp add: create_text_chunks_def trailing_blank_strip)
qed

text \<open>
  C5, as amended. Every metadata record emitted by \<open>create_text_chunks\<close> satisfies
  \<open>0 \<le> chunk_start < chunk_end \<le> total_text_length\<close>, \<open>total_text_length\<close> is the length
  of the text, and \<open>chunk_length\<close> is the length of the stripped chunk text, which is at most
  \<open>chunk_end - chunk_start\<close>.
\<close>

theorem chunk_metadata_invariant:
  assumes "c \<in> set (create_text_chunks s md)"
  shows "0 \<le> meta_int (snd c) ''chunk_start''
    \<and> meta_int (snd c) ''chunk_start'' < meta_int (snd c) ''chunk_end''
    \<and> meta_int (snd c) ''chunk_end'' \<le> meta_int (snd c) ''total_text_length''
    \<and> meta_int (snd c) ''total_text_length'' = int (length s)
    \<and> meta_int (snd c) ''chunk_length'' = int (length (fst c))
    \<and> meta_int (snd c) ''chunk_length''
        \<le> meta_int (snd c) ''chunk_end'' - meta_int (snd c) ''chunk_start''"
proof -
  from create_text_chunks_elem[OF assms] obtain st i where
    lt: "st < length s" and
    c: "c = (chunk_text_at s st,
          chunk_metadata md i st (chunk_end s st) (length (chunk_text_at s st)) (length s))"
    by blast
  from chunk_end_bounds[OF lt] have b: "st < chunk_end s st" "chunk_end s st \<le> length s"
    by simp_all
  from length_chunk_text_at[of s st] b(1)
  have l: "int (length (chunk_text_at s st)) \<le> int (chunk_end s st) - int st" by simp
  show ?thesis using b l by (simp add: c meta_int_chunk_metadata)
qed

text \<open>The text \<open>"abc"\<close> yields one chunk, with the span [0, 3) and the length 3.\<close>

theorem chunk_metadata_invariant_witness:
  "(''abc'', chunk_metadata Map.empty 0 0 3 3 3) \<in> set (create_text_chunks ''abc'' Map.empty)
   \<and> meta_int (chunk_metadata Map.empty 0 0 3 3 3) ''chunk_start'' = 0
   \<and> meta_int (chunk_metadata Map.empty 0 0 3 3 3) ''chunk_end'' = 3
   \<and> meta_int (chunk_metadata Map.empty 0 0 3 3 3) ''chunk_length'' = 3
   \<and> meta_int (chunk_metadata Map.empty 0 0 3 3 3) ''total_text_length'' = 3"
proof -
  have "create_text_chunks ''abc'' Map.empty = [(''abc'', chunk_metadata Map.empty 0 0 3 3 3)]"
    using short_text_chunks[of "''abc''" Map.empty]
    by (simp add: min_chunk_size_def isspace_def eval_nat_numeral)
  then have h: "(''abc'', chunk_metadata Map.empty 0 0 3 3 3) \<in> set (create_text_chunks ''abc'' Map.empty)"
    by simp
  from chunk_metadata_invariant[OF h] h show ?thesis
    by (simp add: meta_int_chunk_metadata)
qed

text \<open>
  The claim as stated fails: 1000 letters followed by a blank yield a first chunk with the span
  [0, 1001) whose \<open>chunk_length\<close> is 1000, the length of the stripped text.
\<close>

theorem chunk_length_counterexample:
  "create_text_chunks text_trailing_blank Map.empty \<noteq> []
   \<and> meta_int (snd (hd (create_text_chunks text_trailing_blank Map.empty))) ''chunk_length'' = 1000
   \<and> meta_int (snd (hd (create_text_chunks text_trailing_blank Map.empty))) ''chunk_end''
       - meta_int (snd (hd (create_text_chunks text_trailing_blank Map.empty))) ''chunk_start'' = 1001"
  by (simp add: trailing_blank_first meta_int_chunk_metadata)

section \<open>C6: the length check of add_document_chunks\<close>

text \<open>
  C6. \<open>add_document_chunks\<close> fails with \<open>LengthMismatch\<close> exactly when the two lists differ
  in length, and then returns the service state as it was: the collection has not been fetched
  and no identifier has been drawn. When it returns ids, they are the next \<open>len(chunks)\<close>
  draws of \<open>uuid4\<close>, one per chunk in input order, the draw counter has advanced past them,
  and they are pairwise distinct when \<open>uuid4\<close> never repeats a value.
\<close>

theorem add_document_chunks_length_check:
  "(fst (add_document_chunks env st chunks metadata_list) = Inl LengthMismatch
      \<longleftrightarrow> length chunks \<noteq> length metadata_list)
   \<and> (length chunks \<noteq> length metadata_list \<longrightarrow>
        snd (add_document_chunks env st chunks metadata_list) = st)
   \<and> (fst (add_document_chunks env st chunks metadata_list) = Inr ids \<longrightarrow>
        length ids = length chunks
        \<and> ids = map (uuid4 env) [uuid_draws st ..< uuid_draws st + length chunks]
        \<and> uuid_draws (snd (add_document_chunks env st chunks metadata_list))
            = uuid_draws st + length chunks
        \<and> (inj (uuid4 env) \<longrightarrow> distinct ids))"
proof (intro conjI impI)
  show "fst (add_document_chunks env st chunks metadata_list) = Inl LengthMismatch
      \<longleftrightarrow> length chunks \<noteq> length metadata_list"
    by (rule add_document_chunks_LengthMismatch)
next
  assume "length chunks \<noteq> length metadata_list"
  then show "snd (add_document_chunks env st chunks metadata_list) = st"
    by (simp add: add_document_chunks_mismatch)
next
  assume r: "fst (add_document_chunks env st chunks metadata_list) = Inr ids"
  from add_document_chunks_ids[OF r]
  show ids: "ids = map (uuid4 env) [uuid_draws st ..< uuid_draws st + length chunks]"
    and "uuid_draws (snd (add_document_chunks env st chunks metadata_list))
        = uuid_draws st + length chunks"
    by simp_all
  from ids show "length ids = length chunks" by simp
  assume "inj (uuid4 env)"
  then have "inj_on (uuid4 env) (set [uuid_draws st ..< uuid_draws st + length chunks])"
    by (rule inj_on_subset) simp
  with ids show "distinct ids" by (simp add: distinct_map)
qed

text \<open>Two texts with three metadata records fail; two texts with two records get two ids.\<close>

theorem add_document_chunks_length_check_witness:
  "add_document_chunks example_db new_db_service [''a'', ''b''] [Map.empty, Map.empty, Map.empty]
     = (Inl LengthMismatch, new_db_service)
   \<and> fst (add_document_chunks example_db new_db_service [''a'', ''b''] [Map.empty, Map.empty])
       = Inr [''uuid-'', ''uuid-i'']
   \<and> uuid_draws (snd (add_document_chunks example_db new_db_service [''a'', ''b'']
        [Map.empty, Map.empty])) = 2"
proof -
  have "fst (add_document_chunks example_db new_db_service [''a'', ''b''] [Map.empty, Map.empty])
      = Inr (map (uuid4 example_db) [0 ..< length [''a'', ''b'']])"
    using example_db_add[of "[''a'', ''b'']" "[Map.empty, Map.empty]"] by simp
  then have r: "fst (add_document_chunks example_db new_db_service [''a'', ''b''] [Map.empty, Map.empty])
      = Inr [''uuid-'', ''uuid-i'']"
    by (simp add: example_db_def)
  have m: "length [''a'', ''b''] \<noteq> length [Map.empty :: metadata, Map.empty, Map.empty]" by simp
  from add_document_chunks_length_check[of example_db new_db_service "[''a'', ''b'']"
      "[Map.empty, Map.empty, Map.empty]" "[]"] m
  have "add_document_chunks example_db new_db_service [''a'', ''b'']
      [Map.empty, Map.empty, Map.empty] = (Inl LengthMismatch, new_db_service)"
    by (metis prod.collapse)
  moreover from add_document_chunks_length_check[of example_db new_db_service "[''a'', ''b'']"
      "[Map.empty, Map.empty]" "[''uuid-'', ''uuid-i'']"] r
  have "uuid_draws (snd (add_document_chunks example_db new_db_service [''a'', ''b'']
        [Map.empty, Map.empty])) = 2"
    by (simp add: new_db_service_def)
  ultimately show ?thesis using r by simp
qed

section \<open>C7: the empty-input errors of the embedding service\<close>

text \<open>
  C7. \<open>generate_embedding\<close> fails with \<open>EmptyInput\<close> exactly when the stripped text is
  empty. On a non-empty list \<open>generate_embeddings\<close> fails with \<open>AllInputsEmpty\<close> exactly when
  every entry is blank; otherwise, once the model is there, it hands the non-blank entries, in
  their order, to the encoder and returns what the encoder returns, which is one embedding per
  surviving entry for an encoder that embeds text by text.
\<close>

theorem embedding_empty_input_errors:
  "(fst (generate_embedding lib svc txt) = Inl EmptyInput \<longleftrightarrow> strip txt = [])
   \<and> (texts \<noteq> [] \<longrightarrow>
        (fst (generate_embeddings lib svc texts) = Inl AllInputsEmpty
           \<longleftrightarrow> (\<forall>t\<in>set texts. strip t = [])))
   \<and> (\<not> (\<forall>t\<in>set texts. strip t = []) \<longrightarrow> get_model lib svc = (Inr m, svc') \<longrightarrow>
        generate_embeddings lib svc texts =
          (case encode lib m (filter (\<lambda>t. strip t \<noteq> []) texts) of
             Inl x \<Rightarrow> (Inl (External x), svc')
           | Inr embeddings \<Rightarrow> (Inr embeddings, svc')))
   \<and> (\<not> (\<forall>t\<in>set texts. strip t = []) \<longrightarrow> get_model lib svc = (Inr m, svc') \<longrightarrow>
        (\<forall>ts. encode lib m ts = Inr (map vec_of ts)) \<longrightarrow>
        fst (generate_embeddings lib svc texts)
          = Inr (map vec_of (filter (\<lambda>t. strip t \<noteq> []) texts)))"
proof (intro conjI impI)
  show "fst (generate_embedding lib svc txt) = Inl EmptyInput \<longleftrightarrow> strip txt = []"
    by (rule generate_embedding_EmptyInput)
next
  assume "texts \<noteq> []"
  then show "fst (generate_embeddings lib svc texts) = Inl AllInputsEmpty
      \<longleftrightarrow> (\<forall>t\<in>set texts. strip t = [])"
    by (simp add: generate_embeddings_AllInputsEmpty)
next
  assume "\<not> (\<forall>t\<in>set texts. strip t = [])" "get_model lib svc = (Inr m, svc')"
  then show "generate_embeddings lib svc texts =
      (case encode lib m (filter (\<lambda>t. strip t \<noteq> []) texts) of
         Inl x \<Rightarrow> (Inl (External x), svc')
       | Inr embeddings \<Rightarrow> (Inr embeddings, svc'))"
    by (rule generate_embeddings_nonblank)
next
  assume a: "\<not> (\<forall>t\<in>set texts. strip t = [])" "get_model lib svc = (Inr m, svc')"
    and e: "\<forall>ts. encode lib m ts = Inr (map vec_of ts)"
  show "fst (generate_embeddings lib svc texts)
      = Inr (map vec_of (filter (\<lambda>t. strip t \<noteq> []) texts))"
    by (simp add: generate_embeddings_nonblank[OF a] e)
qed

text \<open>With the encoder that maps a text to its length: a blank text, an all-blank list and a mixed list.\<close>

theorem embedding_empty_input_errors_witness:
  "fst (generate_embedding example_encoder fresh_embedding_service '' '') = Inl EmptyInput
   \<and> fst (generate_embeddings example_encoder fresh_embedding_service ['' '', []])
       = Inl AllInputsEmpty
   \<and> fst (generate_embeddings example_encoder fresh_embedding_service ['' '', ''a'', [], ''bc''])
       = Inr [1, 2]"
proof -
  have enc: "\<forall>ts. encode example_encoder () ts = Inr (map length ts)"
    by (simp add: example_encoder_def)
  have nb: "\<not> (\<forall>t\<in>set ['' '', ''a'', [], ''bc'']. strip t = [])"
    by (simp add: example_strips)
  have ne: "['' '', []] \<noteq> ([] :: string list)" by simp
  from embedding_empty_input_errors[of example_encoder fresh_embedding_service "'' ''"
      "['' '', []]" "()" "fresh_embedding_service\<lparr>model := Some ()\<rparr>" length]
  have "fst (generate_embedding example_encoder fresh_embedding_service '' '') = Inl EmptyInput"
    and "fst (generate_embeddings example_encoder fresh_embedding_service ['' '', []])
       = Inl AllInputsEmpty"
    using ne by (simp_all add: example_strips)
  moreover from embedding_empty_input_errors[of example_encoder fresh_embedding_service "'' ''"
      "['' '', ''a'', [], ''bc'']" "()" "fresh_embedding_service\<lparr>model := Some ()\<rparr>" length]
    nb example_get_model enc
  have "fst (generate_embeddings example_encoder fresh_embedding_service ['' '', ''a'', [], ''bc''])
       = Inr [1, 2]"
    by (simp add: example_strips)
  ultimately show ?thesis by simp
qed

section \<open>C8: failure isolation in batch ingestion\<close>

text \<open>
  C8, as amended. The keys of the returned map are exactly the \<open>pdf_path\<close> values of the
  configurations, an absent path being the key \<open>None\<close>: one entry per distinct path, hence one
  per configuration when the paths are pairwise distinct. The entry of a path is written by
  the last configuration \<open>cfg\<close> with that path; it is the empty list when the path is absent,
  empty or does not exist, or when the ingestion raises. Whatever the outcome of \<open>cfg\<close>, the
  loop goes on with the configurations after it.
\<close>

theorem batch_ingest_isolation:
  assumes "datasheet_configs = pre @ cfg # post"
    and "pdf_path cfg \<notin> set (map pdf_path post)"
  shows "dom (fst (batch_ingest_datasheets ienv env st datasheet_configs))
      = set (map pdf_path datasheet_configs)
    \<and> (distinct (map pdf_path datasheet_configs) \<longrightarrow>
         card (dom (fst (batch_ingest_datasheets ienv env st datasheet_configs)))
           = length datasheet_configs)
    \<and> fst (batch_ingest_datasheets ienv env st datasheet_configs) (pdf_path cfg)
        = Some (fst (batch_step ienv env cfg (snd (batch_ingest_datasheets ienv env st pre))))
    \<and> (entry_fails ienv env (snd (batch_ingest_datasheets ienv env st pre)) cfg \<longrightarrow>
         fst (batch_ingest_datasheets ienv env st datasheet_configs) (pdf_path cfg) = Some [])
    \<and> batch_ingest_datasheets ienv env st datasheet_configs
        = batch_loop ienv env post
            ((fst (batch_ingest_datasheets ienv env st pre))
               (pdf_path cfg \<mapsto>
                  fst (batch_step ienv env cfg (snd (batch_ingest_datasheets ienv env st pre)))))
            (snd (batch_step ienv env cfg (snd (batch_ingest_datasheets ienv env st pre))))"
proof -
  let ?R = "batch_ingest_datasheets ienv env st datasheet_configs"
  let ?P = "batch_ingest_datasheets ienv env st pre"
  let ?S = "batch_step ienv env cfg (snd ?P)"
  have d: "dom (fst ?R) = set (map pdf_path datasheet_configs)"
    by (simp add: batch_ingest_datasheets_def batch_loop_dom)
  have c: "card (dom (fst ?R)) = length datasheet_configs"
    if "distinct (map pdf_path datasheet_configs)"
    using distinct_card[OF that] by (simp add: d)
  have cont: "?R = batch_loop ienv env post ((fst ?P)(pdf_path cfg \<mapsto> fst ?S)) (snd ?S)"
    unfolding assms(1) batch_ingest_datasheets_def batch_loop_append
    by (simp split: prod.splits)
  have "fst ?R (pdf_path cfg) = ((fst ?P)(pdf_path cfg \<mapsto> fst ?S)) (pdf_path cfg)"
    unfolding cont using assms(2) by (rule batch_loop_other)
  then have e: "fst ?R (pdf_path cfg) = Some (fst ?S)" by simp
  have f: "fst ?R (pdf_path cfg) = Some []" if "entry_fails ienv env (snd ?P) cfg"
    using e that by (simp add: batch_step_fails)
  from d c e f cont show ?thesis by blast
qed

text \<open>Four configurations, the second with a missing file and the third with an unreadable one.\<close>

theorem batch_ingest_isolation_witness:
  "[config_of ''a.pdf'', config_of ''missing.pdf'', config_of ''bad.pdf'', config_of ''b.pdf'']
     = [config_of ''a.pdf''] @ config_of ''missing.pdf'' # [config_of ''bad.pdf'', config_of ''b.pdf'']
   \<and> pdf_path (config_of ''missing.pdf'')
       \<notin> set (map pdf_path [config_of ''bad.pdf'', config_of ''b.pdf''])
   \<and> entry_fails example_files example_db
        (snd (batch_ingest_datasheets example_files example_db new_db_service [config_of ''a.pdf'']))
        (config_of ''missing.pdf'')
   \<and> dom (fst (batch_ingest_datasheets example_files example_db new_db_service
        [config_of ''a.pdf'', config_of ''missing.pdf'', config_of ''bad.pdf'', config_of ''b.pdf'']))
       = {Some ''a.pdf'', Some ''missing.pdf'', Some ''bad.pdf'', Some ''b.pdf''}
   \<and> fst (batch_ingest_datasheets example_files example_db new_db_service
        [config_of ''a.pdf'', config_of ''missing.pdf'', config_of ''bad.pdf'', config_of ''b.pdf''])
       (Some ''missing.pdf'') = Some []
   \<and> fst (batch_ingest_datasheets example_files example_db new_db_service
        [config_of ''a.pdf'', config_of ''missing.pdf'', config_of ''bad.pdf'', config_of ''b.pdf''])
       (Some ''b.pdf'') = Some [''uuid-i'']"
proof -
  let ?cs = "[config_of ''a.pdf'', config_of ''missing.pdf'', config_of ''bad.pdf'', config_of ''b.pdf'']"
  let ?R = "batch_ingest_datasheets example_files example_db new_db_service ?cs"
  have h1: "?cs = [config_of ''a.pdf''] @ config_of ''missing.pdf''
      # [config_of ''bad.pdf'', config_of ''b.pdf'']"
    by simp
  have h2: "pdf_path (config_of ''missing.pdf'')
      \<notin> set (map pdf_path [config_of ''bad.pdf'', config_of ''b.pdf''])"
    by (simp add: config_of_def)
  have h3: "entry_fails example_files example_db
      (snd (batch_ingest_datasheets example_files example_db new_db_service [config_of ''a.pdf'']))
      (config_of ''missing.pdf'')"
    by (simp add: entry_fails_def config_of_def example_files_def)
  note t = batch_ingest_isolation[OF h1 h2, of example_files example_db new_db_service]
  from t have d: "dom (fst ?R) = set (map pdf_path ?cs)" by blast
  from t h3 have m: "fst ?R (pdf_path (config_of ''missing.pdf'')) = Some []" by blast
  let ?s1 = "snd (batch_step example_files example_db (config_of ''a.pdf'') new_db_service)"
  have s1: "uuid_draws ?s1 = 1"
    using example_step_good[of "''a.pdf''" new_db_service] by (simp add: new_db_service_def)
  have u: "uuid4 example_db 1 = ''uuid-i''" by (simp add: example_db_def)
  have "fst (batch_step example_files example_db (config_of ''b.pdf'') ?s1)
      = [uuid4 example_db (uuid_draws ?s1)]"
    using example_step_good[of "''b.pdf''" ?s1] by simp
  then have b: "fst (batch_step example_files example_db (config_of ''b.pdf'') ?s1) = [''uuid-i'']"
    by (simp only: s1 u)
  have "fst ?R (Some ''b.pdf'') = Some [''uuid-i'']"
    by (simp add: batch_ingest_datasheets_def batch_loop_Cons example_step_missing
          example_step_bad b pdf_path_config_of del: batch_loop.simps(2))
  with h1 h2 h3 d m show ?thesis by (simp add: config_of_def)
qed

text \<open>
  The claim as stated fails: two configurations with the same path give a map with one entry.
\<close>

theorem batch_ingest_duplicate_path_counterexample:
  "card (dom (fst (batch_ingest_datasheets example_files example_db new_db_service
      [config_of ''missing.pdf'', config_of ''missing.pdf'']))) = 1
   \<and> length [config_of ''missing.pdf'', config_of ''missing.pdf''] = 2"
  by (simp add: batch_ingest_datasheets_def batch_loop_Cons example_step_missing
        del: batch_loop.simps(2))

section \<open>C10: generate_embeddings on the empty list\<close>

text \<open>
  C10. On the empty list \<open>generate_embeddings\<close> returns the empty list and leaves the service
  as it was, so the model is not loaded; \<open>AllInputsEmpty\<close> is raised only for a non-empty list
  whose entries are all blank.
\<close>

theorem generate_embeddings_empty_list:
  "generate_embeddings lib svc [] = (Inr [], svc)
   \<and> (fst (generate_embeddings lib svc texts) = Inl AllInputsEmpty
        \<longleftrightarrow> texts \<noteq> [] \<and> (\<forall>t\<in>set texts. strip t = []))"
  by (simp add: generate_embeddings_AllInputsEmpty) (simp add: generate_embeddings_def)

text \<open>The service that has not loaded its model still has none after the call.\<close>

theorem generate_embeddings_empty_list_witness:
  "generate_embeddings example_encoder fresh_embedding_service []
     = (Inr [], fresh_embedding_service)
   \<and> model (snd (generate_embeddings example_encoder fresh_embedding_service [])) = None
   \<and> fst (generate_embeddings example_encoder fresh_embedding_service ['' '']) = Inl AllInputsEmpty
   \<and> fst (generate_embeddings example_encoder fresh_embedding_service ([] :: string list))
       \<noteq> Inl AllInputsEmpty"
  using generate_embeddings_empty_list[of example_encoder fresh_embedding_service "['' '']"]
    generate_embeddings_empty_list[of example_encoder fresh_embedding_service "[]"]
  by (simp add: example_strips fresh_embedding_service_def)

end
